theory Spec2Isabelle
  imports Main "HOL-Library.AList" "HOL-Library.Sublist"
begin

section \<open>Values, objects and the store\<close>

text \<open>
  \<open>extractFiles\<close> works on JavaScript values whose objects have identity: the same array
  can sit under two keys, an object can contain itself, and the \<open>Map\<close> of extracted files
  is keyed by reference. The embedding therefore uses an explicit store. An address is an
  index into the store, a value is a primitive or a reference, and allocation appends to
  the store, so that the fresh address is the length of the store.

  Numbers are kept as integers: the code never computes with a number of the input.
\<close>

type_synonym addr = nat

datatype prim = Undefined | Null | Bool bool | Num int | Str string

datatype val = Prim prim | Ref addr

text \<open>
  The kinds of object the code tells apart:
  \<^item> \<open>Arr\<close>: \<open>Array.isArray(value)\<close> holds; the elements in index order (dense arrays);
  \<^item> \<open>Plain\<close>: \<open>value.constructor === Object\<close> holds; the own enumerable data properties
    in the order \<open>for ... in\<close> enumerates them;
  \<^item> \<open>FileList\<close>: \<open>value instanceof FileList\<close> holds (such objects exist only where the
    global \<open>FileList\<close> is defined); the entries in index order;
  \<^item> \<open>Inst c props ro\<close>: an instance of any other class \<open>c\<close> (\<open>File\<close>, \<open>Blob\<close>,
    \<open>ReactNativeFile\<close>, \<open>Date\<close>, \<open>Number\<close>, a function, ...) with its own enumerable
    data properties \<open>props\<close>. The list \<open>ro\<close> names the keys that cannot be assigned on
    the instance or through it: a data property that is not writable or an accessor
    without a setter, its own or inherited from its class (\<open>name\<close> and \<open>length\<close> of a
    function, \<open>length\<close> and the indices of a \<open>String\<close> object, \<open>name\<close> and \<open>size\<close> of a
    \<open>File\<close>);
  \<^item> \<open>Derived p props\<close>: an object whose prototype an assignment to \<open>__proto__\<close> has
    set to \<open>p\<close>, which is \<open>null\<close> or an object, with its own properties \<open>props\<close>. Such
    objects are made by \<open>extractFiles\<close> (see \<open>assign\<close> below); a value of the input
    whose prototype is not the one its kind has by default is outside this model.

  The properties of arrays and plain objects are ordinary writable data properties, as
  an array or object literal and \<open>JSON.parse\<close> make them. Frozen containers, accessor
  properties with a setter, proxies and inherited enumerable properties are outside
  this model.
\<close>

datatype obj =
    Arr "val list"
  | Plain "(string \<times> val) list"
  | FileList "val list"
  | Inst string "(string \<times> val) list" "string list"
  | Derived val "(string \<times> val) list"

type_synonym heap = "obj list"

definition lookup :: "heap \<Rightarrow> addr \<Rightarrow> obj option" where
  "lookup h a = (if a < length h then Some (h ! a) else None)"

text \<open>The \<open>Map\<close> of extracted files: entries in insertion order, keyed by value identity.\<close>

type_synonym files = "(val \<times> string list) list"

record state =
  heap :: heap
  files :: files

text \<open>
  What a call can throw: \<open>TypeError\<close> (a method call on \<open>undefined\<close>, destructuring
  \<open>null\<close>) and \<open>RangeError\<close> (the call stack is exhausted).
\<close>

datatype error = TypeError | RangeError

text \<open>
  The matcher \<open>isExtractableFile\<close> is a parameter of \<open>extractFiles\<close>. It reads the value
  in the store of the moment it is called. A matcher that throws or writes to the store
  is outside this model.
\<close>

type_synonym matcher = "heap \<Rightarrow> val \<Rightarrow> bool"


section \<open>Built-in operations the code calls\<close>

text \<open>The template literal \<open>`${index}`\<close> of a non-negative integer: its decimal digits.\<close>

definition digit :: "nat \<Rightarrow> char" where
  "digit n = ''0123456789'' ! n"

function string_of_nat :: "nat \<Rightarrow> string" where
  "string_of_nat n =
     (if n < 10 then [digit n] else string_of_nat (n div 10) @ [digit (n mod 10)])"
  by pat_completeness auto
termination
  by (relation "measure id") auto

declare string_of_nat.simps [simp del]

text \<open>
  The assignment \<open>clone[key] = v\<close> (ECMAScript, OrdinarySet) looks for the property
  first on the object and then along its prototype chain. What it finds on the chain
  decides what it does:
  \<^item> nothing, or a writable data property: the object gets an own property;
  \<^item> a data property that is not writable, or an accessor without a setter: nothing is
    stored, and in strict mode, which the module declares, \<open>TypeError\<close> is thrown;
  \<^item> the accessor \<open>__proto__\<close> of \<open>Object.prototype\<close> (ECMAScript, B.2.2.1): its setter
    is called.
  \<open>inherited_slot\<close> is that search, from the prototype \<open>p\<close> of the object on. The chain
  of an array, a plain object or a class instance ends at \<open>Object.prototype\<close>, whose
  other properties are writable. The first argument bounds the length of the chain
  (no chain is longer than the store).
\<close>

datatype slot = Absent | Writable | ReadOnly | ProtoSetter

definition object_prototype_slot :: "string \<Rightarrow> slot" where
  "object_prototype_slot key = (if key = ''__proto__'' then ProtoSetter else Absent)"

fun inherited_slot :: "nat \<Rightarrow> heap \<Rightarrow> val \<Rightarrow> string \<Rightarrow> slot" where
  "inherited_slot 0 h p key = Absent"
| "inherited_slot (Suc n) h p key =
     (case p of
        Prim q \<Rightarrow> Absent
      | Ref a \<Rightarrow>
          (case lookup h a of
             None \<Rightarrow> Absent
           | Some (Derived p' kvs) \<Rightarrow>
               if key \<in> fst ` set kvs then Writable else inherited_slot n h p' key
           | Some (Inst cls kvs ro) \<Rightarrow>
               if key \<in> set ro then ReadOnly
               else if key \<in> fst ` set kvs then Writable
               else object_prototype_slot key
           | Some (Plain kvs) \<Rightarrow>
               if key \<in> fst ` set kvs then Writable else object_prototype_slot key
           | Some (Arr items) \<Rightarrow> object_prototype_slot key
           | Some (FileList items) \<Rightarrow> object_prototype_slot key))"

text \<open>
  The setter of \<open>__proto__\<close>, called on the object at address \<open>c\<close> with own properties
  \<open>kvs\<close>: the prototype of the object becomes \<open>v\<close> when \<open>v\<close> is \<open>null\<close> or an object, and
  nothing happens for any other \<open>v\<close>; in neither case does the object get a property.
  The setter throws \<open>TypeError\<close> when the object is on the prototype chain of \<open>v\<close>.
\<close>

fun proto_chain :: "nat \<Rightarrow> heap \<Rightarrow> val \<Rightarrow> addr list" where
  "proto_chain 0 h p = []"
| "proto_chain (Suc n) h p =
     (case p of
        Prim q \<Rightarrow> []
      | Ref a \<Rightarrow>
          a # (case lookup h a of
                 Some (Derived p' kvs) \<Rightarrow> proto_chain n h p'
               | _ \<Rightarrow> []))"

definition set_prototype :: "addr \<Rightarrow> val \<Rightarrow> (string \<times> val) list \<Rightarrow> heap \<Rightarrow> error + heap" where
  "set_prototype c v kvs h =
     (case v of
        Prim q \<Rightarrow> if q = Null then Inr (h[c := Derived v kvs]) else Inr h
      | Ref a \<Rightarrow>
          if c \<in> set (proto_chain (Suc (length h)) h v) then Inl TypeError
          else Inr (h[c := Derived v kvs]))"

text \<open>
  \<open>clone[key] = v\<close> on the object at address \<open>c\<close>, which is a clone under construction
  or the new instance of a constructor. An own property is replaced where it is; a new
  one is added after the others.
\<close>

definition store_property ::
  "addr \<Rightarrow> string \<Rightarrow> val \<Rightarrow> slot \<Rightarrow> (string \<times> val) list \<Rightarrow> ((string \<times> val) list \<Rightarrow> obj) \<Rightarrow> heap
    \<Rightarrow> error + heap" where
  "store_property c key v found kvs rebuild h =
     (if key \<in> fst ` set kvs then Inr (h[c := rebuild (AList.update key v kvs)])
      else
        case found of
          ReadOnly \<Rightarrow> Inl TypeError
        | ProtoSetter \<Rightarrow> set_prototype c v kvs h
        | _ \<Rightarrow> Inr (h[c := rebuild (AList.update key v kvs)]))"

definition assign :: "addr \<Rightarrow> string \<Rightarrow> val \<Rightarrow> heap \<Rightarrow> error + heap" where
  "assign c key v h =
     (case lookup h c of
        Some (Plain kvs) \<Rightarrow> store_property c key v (object_prototype_slot key) kvs Plain h
      | Some (Inst cls kvs ro) \<Rightarrow>
          if key \<in> set ro then Inl TypeError
          else store_property c key v (object_prototype_slot key) kvs (\<lambda>kvs'. Inst cls kvs' ro) h
      | Some (Derived p kvs) \<Rightarrow>
          store_property c key v (inherited_slot (length h) h p key) kvs (Derived p) h
      | _ \<Rightarrow> Inr h)"

text \<open>
  Reading a data property \<open>source.key\<close>, on the object and then along the prototype
  chain that the store records: \<open>undefined\<close> where there is no such property.
\<close>

fun inherited :: "nat \<Rightarrow> heap \<Rightarrow> val \<Rightarrow> string \<Rightarrow> val" where
  "inherited 0 h source key = Prim Undefined"
| "inherited (Suc n) h source key =
     (case source of
        Prim p \<Rightarrow> Prim Undefined
      | Ref a \<Rightarrow>
          (case lookup h a of
             Some (Plain kvs) \<Rightarrow> (case map_of kvs key of Some v \<Rightarrow> v | None \<Rightarrow> Prim Undefined)
           | Some (Inst cls kvs ro) \<Rightarrow>
               (case map_of kvs key of Some v \<Rightarrow> v | None \<Rightarrow> Prim Undefined)
           | Some (Derived p kvs) \<Rightarrow>
               (case map_of kvs key of Some v \<Rightarrow> v | None \<Rightarrow> inherited n h p key)
           | _ \<Rightarrow> Prim Undefined))"

definition property :: "heap \<Rightarrow> val \<Rightarrow> string \<Rightarrow> val" where
  "property h source key = inherited (Suc (length h)) h source key"

text \<open>Storing the next element of the array that \<open>Array.prototype.map\<close> builds.\<close>

definition push :: "addr \<Rightarrow> val \<Rightarrow> heap \<Rightarrow> heap" where
  "push c v h =
     (case lookup h c of
        Some (Arr xs) \<Rightarrow> h[c := Arr (xs @ [v])]
      | _ \<Rightarrow> h)"

text \<open>
  \<open>Array.prototype.map\<close>: the result array is created first, then the callback runs on
  each element with its index, in index order, and its result is stored. An exception
  of the callback ends the loop.
\<close>

fun map_loop ::
  "(val \<Rightarrow> nat \<Rightarrow> state \<Rightarrow> error + val \<times> state) \<Rightarrow> addr \<Rightarrow> val list \<Rightarrow> nat \<Rightarrow> state
    \<Rightarrow> error + state" where
  "map_loop f c [] index s = Inr s"
| "map_loop f c (item # items) index s =
     (case f item index s of
        Inl e \<Rightarrow> Inl e
      | Inr (r, s1) \<Rightarrow> map_loop f c items (Suc index) (s1\<lparr>heap := push c r (heap s1)\<rparr>))"

definition array_map ::
  "(val \<Rightarrow> nat \<Rightarrow> state \<Rightarrow> error + val \<times> state) \<Rightarrow> val list \<Rightarrow> state
    \<Rightarrow> error + val \<times> state" where
  "array_map f items s =
     (let c = length (heap s) in
      case map_loop f c items 0 (s\<lparr>heap := heap s @ [Arr []]\<rparr>) of
        Inl e \<Rightarrow> Inl e
      | Inr s' \<Rightarrow> Inr (Ref c, s'))"


section \<open>extractFiles\<close>

text \<open>
  \<open>addFile\<close>: \<open>files.get(file)\<close>, then \<open>storedPaths.push(path)\<close> when the file has an
  entry and \<open>files.set(file, [path])\<close> when it has none. A stored path list is an array,
  so it is always truthy.
\<close>

definition addFile :: "val \<Rightarrow> string \<Rightarrow> files \<Rightarrow> files" where
  "addFile file path fs =
     (case map_of fs file of
        Some storedPaths \<Rightarrow> AList.update file (storedPaths @ [path]) fs
      | None \<Rightarrow> fs @ [(file, [path])])"

text \<open>
  The loop \<open>for (const key in value) clone[key] = recurse(value[key], ...)\<close> over the
  properties of \<open>value\<close>, writing into the clone at address \<open>c\<close>.
\<close>

fun for_in ::
  "(string \<Rightarrow> val \<Rightarrow> state \<Rightarrow> error + val \<times> state) \<Rightarrow> addr \<Rightarrow> (string \<times> val) list \<Rightarrow> state
    \<Rightarrow> error + state" where
  "for_in f c [] s = Inr s"
| "for_in f c ((key, v) # kvs) s =
     (case f key v s of
        Inl e \<Rightarrow> Inl e
      | Inr (r, s1) \<Rightarrow>
          (case assign c key r (heap s1) of
             Inl e \<Rightarrow> Inl e
           | Inr h' \<Rightarrow> for_in f c kvs (s1\<lparr>heap := h'\<rparr>)))"

text \<open>The constant \<open>prefix\<close> of \<open>recurse\<close>: \<open>path ? `${path}.` : ''\<close>.\<close>

definition pathPrefix :: "string \<Rightarrow> string" where
  "pathPrefix path = (if path \<noteq> [] then path @ ''.'' else [])"

text \<open>
  \<open>recurse\<close>. The first argument bounds the depth of the call stack: a call that would
  exceed it throws \<open>RangeError\<close>, as a JavaScript engine does. The set \<open>recursed\<close> is
  \<open>None\<close> where the code passes no third argument (the call from the \<open>FileList\<close>
  branch); \<open>recursed.has(value)\<close> then throws \<open>TypeError\<close>.
\<close>

fun recurse ::
  "nat \<Rightarrow> matcher \<Rightarrow> val \<Rightarrow> string \<Rightarrow> addr set option \<Rightarrow> state \<Rightarrow> error + val \<times> state" where
  "recurse 0 isExtractableFile value path recursed s = Inl RangeError"
| "recurse (Suc depth) isExtractableFile value path recursed s =
     (if isExtractableFile (heap s) value
      then Inr (Prim Null, s\<lparr>files := addFile value path (files s)\<rparr>)
      else
        let prefix = pathPrefix path in
        case value of
          Prim p \<Rightarrow> Inr (value, s)
        | Ref a \<Rightarrow>
            (case lookup (heap s) a of
               Some (FileList items) \<Rightarrow>
                 array_map
                   (\<lambda>item index.
                      recurse depth isExtractableFile item (prefix @ string_of_nat index) None)
                   items s
             | Some (Arr items) \<Rightarrow>
                 (case recursed of
                    None \<Rightarrow> Inl TypeError
                  | Some R \<Rightarrow>
                      if a \<notin> R
                      then array_map
                             (\<lambda>item index.
                                recurse depth isExtractableFile item
                                  (prefix @ string_of_nat index) (Some (insert a R)))
                             items s
                      else Inr (value, s))
             | Some (Plain kvs) \<Rightarrow>
                 (case recursed of
                    None \<Rightarrow> Inl TypeError
                  | Some R \<Rightarrow>
                      if a \<notin> R
                      then
                        (let c = length (heap s) in
                         case for_in
                                (\<lambda>key v.
                                   recurse depth isExtractableFile v (prefix @ key)
                                     (Some (insert a R)))
                                c kvs (s\<lparr>heap := heap s @ [Plain []]\<rparr>) of
                           Inl e \<Rightarrow> Inl e
                         | Inr s' \<Rightarrow> Inr (Ref c, s'))
                      else Inr (value, s))
             | _ \<Rightarrow> Inr (value, s)))"

text \<open>
  \<open>extractFiles(value, path, isExtractableFile)\<close> in the store \<open>h\<close>, with a call stack of
  \<open>depth\<close> frames. The result is the clone together with the final state: the \<open>Map\<close>
  of files and the store, in which the clone lives.
\<close>

definition extractFiles ::
  "nat \<Rightarrow> heap \<Rightarrow> val \<Rightarrow> string \<Rightarrow> matcher \<Rightarrow> error + val \<times> state" where
  "extractFiles depth h value path isExtractableFile =
     recurse depth isExtractableFile value path (Some {}) \<lparr>heap = h, files = []\<rparr>"

section \<open>ReactNativeFile and the default matcher\<close>

text \<open>
  \<open>new ReactNativeFile(source)\<close>: the parameter pattern \<open>{ uri, name, type }\<close> reads
  the three properties of the argument (destructuring \<open>undefined\<close> or \<open>null\<close> throws
  \<open>TypeError\<close>), then the constructor assigns them to the new instance in the order
  \<open>uri\<close>, \<open>name\<close>, \<open>type\<close>.
\<close>

definition ReactNativeFile :: "heap \<Rightarrow> val \<Rightarrow> error + val \<times> heap" where
  "ReactNativeFile h source =
     (if source = Prim Undefined \<or> source = Prim Null then Inl TypeError
      else
        let uri = property h source ''uri'';
            name = property h source ''name'';
            type = property h source ''type'';
            this = length h;
            h0 = h @ [Inst ''ReactNativeFile'' [] []]
        in
          case assign this ''uri'' uri h0 of
            Inl e \<Rightarrow> Inl e
          | Inr h1 \<Rightarrow>
              (case assign this ''name'' name h1 of
                 Inl e \<Rightarrow> Inl e
               | Inr h2 \<Rightarrow>
                   (case assign this ''type'' type h2 of
                      Inl e \<Rightarrow> Inl e
                    | Inr h3 \<Rightarrow> Inr (Ref this, h3))))"

text \<open>
  Modelled from the spec: the module \<open>./isExtractableFile\<close> that \<open>extractFiles\<close> requires
  as its default matcher is not among the sources. The spec (section 6) says that it
  classifies a value as extractable if it is an instance of a platform binary-blob-like
  type, a platform file-like type, or the dedicated file-substitute marker type.
\<close>

definition defaultIsExtractableFile :: matcher where
  "defaultIsExtractableFile h value =
     (case value of
        Prim p \<Rightarrow> False
      | Ref a \<Rightarrow>
          (case lookup h a of
             Some (Inst cls props ro) \<Rightarrow> cls = ''File'' \<or> cls = ''Blob'' \<or> cls = ''ReactNativeFile''
           | _ \<Rightarrow> False))"

section \<open>Well-formed stores and matchers\<close>

text \<open>
  A store is closed when no object holds a dangling reference, as in any JavaScript heap.
  \<open>filelists_flat\<close> is the assumption that the comment in the \<open>FileList\<close> branch of
  \<open>recurse\<close> writes down, in its weakest form: no entry of a \<open>FileList\<close> is an array, a
  plain object or a \<open>FileList\<close>.
\<close>

definition closed_val :: "heap \<Rightarrow> val \<Rightarrow> bool" where
  "closed_val h v = (case v of Prim p \<Rightarrow> True | Ref a \<Rightarrow> a < length h)"

fun obj_vals :: "obj \<Rightarrow> val list" where
  "obj_vals (Arr items) = items"
| "obj_vals (Plain kvs) = map snd kvs"
| "obj_vals (FileList items) = items"
| "obj_vals (Inst cls kvs ro) = map snd kvs"
| "obj_vals (Derived p kvs) = p # map snd kvs"

definition closed_heap :: "heap \<Rightarrow> bool" where
  "closed_heap h = list_all (\<lambda>ob. list_all (closed_val h) (obj_vals ob)) h"



text \<open>The keys of a plain object are pairwise different, as in every JavaScript object.\<close>

definition distinct_keys :: "heap \<Rightarrow> bool" where
  "distinct_keys h =
     list_all (\<lambda>ob. case ob of Plain kvs \<Rightarrow> distinct (map fst kvs) | _ \<Rightarrow> True) h"


text \<open>
  A matcher is stable on a store when its verdict on a value of that store does not
  change as objects are allocated behind it: it looks at the value, not at the clones
  under construction. A test of the class of the value, as the default matcher makes,
  is stable.
\<close>

definition stable_matcher :: "heap \<Rightarrow> matcher \<Rightarrow> bool" where
  "stable_matcher h isExtractable \<longleftrightarrow>
     (\<forall>ext v. closed_val h v \<longrightarrow> isExtractable (h @ ext) v = isExtractable h v)"


section \<open>The index and the paths, as the spec describes them\<close>

text \<open>The index after a sequence of calls of \<open>addFile\<close>, starting from \<open>fs\<close>.\<close>

fun addFiles :: "(val \<times> string) list \<Rightarrow> files \<Rightarrow> files" where
  "addFiles [] fs = fs"
| "addFiles ((file, path) # occs) fs = addFiles occs (addFile file path fs)"


text \<open>
  The occurrences of extractable leaves in the order in which the algorithm of the spec
  (section 4.1, steps 1 to 5) meets them: depth first, elements by index and properties
  in enumeration order, a container entered only when it is not in the visited set of
  the branch, the set of a child being that of its parent plus the parent. This is a
  function of the input store alone. Each occurrence comes with its path as the code
  writes it, segment after \<open>pathPrefix\<close>; \<open>leaf_positions\<close> below lists the same
  occurrences with their segments instead.
\<close>

fun occ_items :: "(val \<Rightarrow> nat \<Rightarrow> (val \<times> string) list) \<Rightarrow> val list \<Rightarrow> nat \<Rightarrow> (val \<times> string) list" where
  "occ_items g [] index = []"
| "occ_items g (item # items) index = g item index @ occ_items g items (Suc index)"

fun occ_props :: "(string \<Rightarrow> val \<Rightarrow> (val \<times> string) list) \<Rightarrow> (string \<times> val) list \<Rightarrow> (val \<times> string) list" where
  "occ_props g [] = []"
| "occ_props g ((key, v) # kvs) = g key v @ occ_props g kvs"

fun occurrences ::
  "nat \<Rightarrow> matcher \<Rightarrow> heap \<Rightarrow> val \<Rightarrow> string \<Rightarrow> addr set option \<Rightarrow> (val \<times> string) list" where
  "occurrences 0 isExtractable h value path visited = []"
| "occurrences (Suc depth) isExtractable h value path visited =
     (if isExtractable h value then [(value, path)]
      else
        case value of
          Prim p \<Rightarrow> []
        | Ref a \<Rightarrow>
            (case lookup h a of
               Some (FileList items) \<Rightarrow>
                 occ_items
                   (\<lambda>item index.
                      occurrences depth isExtractable h item (pathPrefix path @ string_of_nat index) None)
                   items 0
             | Some (Arr items) \<Rightarrow>
                 (case visited of
                    None \<Rightarrow> []
                  | Some V \<Rightarrow>
                      if a \<notin> V
                      then occ_items
                             (\<lambda>item index.
                                occurrences depth isExtractable h item
                                  (pathPrefix path @ string_of_nat index) (Some (insert a V)))
                             items 0
                      else [])
             | Some (Plain kvs) \<Rightarrow>
                 (case visited of
                    None \<Rightarrow> []
                  | Some V \<Rightarrow>
                      if a \<notin> V
                      then occ_props
                             (\<lambda>key v.
                                occurrences depth isExtractable h v (pathPrefix path @ key)
                                  (Some (insert a V)))
                             kvs
                      else [])
             | _ \<Rightarrow> []))"

text \<open>
  The values directly inside a value, each with its segment: the decimal index for an
  element, the key for a property. \<open>resolve\<close> walks a list of segments from a value;
  \<open>reaches\<close> does so the way the algorithm descends: only through arrays and plain
  objects that the matcher rejects and that are not already on the way.
\<close>

definition children :: "heap \<Rightarrow> val \<Rightarrow> (string \<times> val) list" where
  "children h v =
     (case v of
        Prim p \<Rightarrow> []
      | Ref a \<Rightarrow>
          (case lookup h a of
             Some (Arr items) \<Rightarrow> zip (map string_of_nat [0..<length items]) items
           | Some (FileList items) \<Rightarrow> zip (map string_of_nat [0..<length items]) items
           | Some (Plain kvs) \<Rightarrow> kvs
           | Some (Derived p kvs) \<Rightarrow> kvs
           | _ \<Rightarrow> []))"

fun resolve :: "heap \<Rightarrow> val \<Rightarrow> string list \<Rightarrow> val list" where
  "resolve h v [] = [v]"
| "resolve h v (seg # segs) =
     concat (map (\<lambda>(key, w). if key = seg then resolve h w segs else []) (children h v))"

fun reaches :: "matcher \<Rightarrow> heap \<Rightarrow> addr set \<Rightarrow> val \<Rightarrow> string list \<Rightarrow> val \<Rightarrow> bool" where
  "reaches isExtractable h V v [] w \<longleftrightarrow> v = w"
| "reaches isExtractable h V v (seg # segs) w \<longleftrightarrow>
     \<not> isExtractable h v \<and>
     (case v of
        Prim p \<Rightarrow> False
      | Ref a \<Rightarrow>
          a \<notin> V \<and>
          (case lookup h a of
             Some (Arr items) \<Rightarrow>
               list_ex (\<lambda>(key, u). key = seg \<and> reaches isExtractable h (insert a V) u segs w)
                 (children h v)
           | Some (Plain kvs) \<Rightarrow>
               list_ex (\<lambda>(key, u). key = seg \<and> reaches isExtractable h (insert a V) u segs w)
                 (children h v)
           | _ \<Rightarrow> False))"

text \<open>
  \<open>cloned_at\<close>: the position \<open>segs\<close> of the value holds the array or plain object at
  address \<open>a\<close>, and the algorithm clones it there: the matcher rejects it and every
  container on the way to it, and none of them, \<open>a\<close> included, occurs twice on the way
  or is in the visited set \<open>V\<close>. Two such positions of one container are what the spec
  calls non-ancestor positions.
\<close>

fun cloned_at :: "matcher \<Rightarrow> heap \<Rightarrow> addr set \<Rightarrow> val \<Rightarrow> string list \<Rightarrow> addr \<Rightarrow> bool" where
  "cloned_at isExtractable h V v [] a \<longleftrightarrow>
     v = Ref a \<and> \<not> isExtractable h v \<and> a \<notin> V \<and>
     (case lookup h a of Some (Arr items) \<Rightarrow> True | Some (Plain kvs) \<Rightarrow> True | _ \<Rightarrow> False)"
| "cloned_at isExtractable h V v (seg # segs) a \<longleftrightarrow>
     \<not> isExtractable h v \<and>
     (case v of
        Prim p \<Rightarrow> False
      | Ref b \<Rightarrow>
          b \<notin> V \<and>
          (case lookup h b of
             Some (Arr items) \<Rightarrow>
               list_ex (\<lambda>(key, u). key = seg \<and> cloned_at isExtractable h (insert b V) u segs a)
                 (children h v)
           | Some (Plain kvs) \<Rightarrow>
               list_ex (\<lambda>(key, u). key = seg \<and> cloned_at isExtractable h (insert b V) u segs a)
                 (children h v)
           | _ \<Rightarrow> False))"

text \<open>
  \<open>record_at h c\<close>: the object at \<open>c\<close> is a keyed object that \<open>recurse\<close> builds, plain or
  with a prototype set. \<open>same_kind h a H c\<close>: the object at \<open>c\<close> in \<open>H\<close> is of the kind
  of the object at \<open>a\<close> in \<open>h\<close>: an array of the same length for an array, a keyed
  object for a plain object.
\<close>

definition record_at :: "heap \<Rightarrow> addr \<Rightarrow> bool" where
  "record_at h c =
     (case lookup h c of Some (Plain kvs) \<Rightarrow> True | Some (Derived p kvs) \<Rightarrow> True | _ \<Rightarrow> False)"

definition same_kind :: "heap \<Rightarrow> addr \<Rightarrow> heap \<Rightarrow> addr \<Rightarrow> bool" where
  "same_kind h a H c =
     (case lookup h a of
        Some (Arr items) \<Rightarrow>
          (case lookup H c of Some (Arr rs) \<Rightarrow> length rs = length items | _ \<Rightarrow> False)
      | Some (Plain kvs) \<Rightarrow> record_at H c
      | _ \<Rightarrow> False)"

text \<open>
  The calls that a loop of \<open>recurse\<close> makes, for the proofs about what a clone holds.
  \<open>child_call h0 s s' g r t\<close>: inside a loop that runs from the state \<open>s\<close> to the state
  \<open>s'\<close>, the call \<open>g\<close> starts in the state \<open>fst t\<close> and returns \<open>r\<close> in the state \<open>snd t\<close>;
  the store \<open>h0\<close> is a prefix of the store it starts in, and the objects it allocates
  are in the final store as it leaves them. \<open>in_order\<close>: each call of the list returns
  before the next one starts.
\<close>

definition child_call ::
  "heap \<Rightarrow> state \<Rightarrow> state \<Rightarrow> (state \<Rightarrow> error + val \<times> state) \<Rightarrow> val \<Rightarrow> state \<times> state \<Rightarrow> bool" where
  "child_call h0 s s' g r t \<longleftrightarrow>
     g (fst t) = Inr (r, snd t)
     \<and> prefix h0 (heap (fst t))
     \<and> length (heap s) \<le> length (heap (fst t))
     \<and> length (heap (snd t)) \<le> length (heap s')
     \<and> (\<forall>b. length (heap (fst t)) \<le> b \<and> b < length (heap (snd t))
            \<longrightarrow> lookup (heap s') b = lookup (heap (snd t)) b)"

definition in_order :: "(state \<times> state) list \<Rightarrow> bool" where
  "in_order tr \<longleftrightarrow>
     (\<forall>i j. i < j \<and> j < length tr \<longrightarrow> length (heap (snd (tr ! i))) \<le> length (heap (fst (tr ! j))))"

text \<open>
  \<open>clone_held s s' r segs c\<close>: the call that ran from the state \<open>s\<close> to the state \<open>s'\<close>
  and returned \<open>r\<close> has allocated the object at \<open>c\<close>, after the result itself unless
  the position is the empty one, and \<open>r\<close> holds a reference to \<open>c\<close> at the position
  \<open>segs\<close>, in every store that has the objects the call allocated as the call left them.
\<close>

definition clone_held :: "state \<Rightarrow> state \<Rightarrow> val \<Rightarrow> string list \<Rightarrow> addr \<Rightarrow> bool" where
  "clone_held s s' r segs c \<longleftrightarrow>
     length (heap s) \<le> c \<and> c < length (heap s')
     \<and> (segs \<noteq> [] \<longrightarrow> length (heap s) < c)
     \<and> (\<forall>H. (\<forall>b. length (heap s) \<le> b \<and> b < length (heap s') \<longrightarrow> lookup H b = lookup (heap s') b)
            \<longrightarrow> Ref c \<in> set (resolve H r segs))"

text \<open>
  The positions of the extractable leaves: each leaf that the algorithm of the spec
  (section 4.1, steps 1 to 5) meets, with the segments that lead to it from the value,
  in the order in which the algorithm meets them. Unlike \<open>occurrences\<close>, this says
  nothing of how a position is written as a path.
\<close>

fun pos_items :: "(val \<Rightarrow> (val \<times> string list) list) \<Rightarrow> val list \<Rightarrow> nat \<Rightarrow> (val \<times> string list) list" where
  "pos_items g [] index = []"
| "pos_items g (item # items) index =
     map (\<lambda>(f, segs). (f, string_of_nat index # segs)) (g item) @ pos_items g items (Suc index)"

fun pos_props :: "(val \<Rightarrow> (val \<times> string list) list) \<Rightarrow> (string \<times> val) list \<Rightarrow> (val \<times> string list) list" where
  "pos_props g [] = []"
| "pos_props g ((key, v) # kvs) = map (\<lambda>(f, segs). (f, key # segs)) (g v) @ pos_props g kvs"

fun leaf_positions ::
  "nat \<Rightarrow> matcher \<Rightarrow> heap \<Rightarrow> val \<Rightarrow> addr set option \<Rightarrow> (val \<times> string list) list" where
  "leaf_positions 0 isExtractable h value visited = []"
| "leaf_positions (Suc depth) isExtractable h value visited =
     (if isExtractable h value then [(value, [])]
      else
        case value of
          Prim p \<Rightarrow> []
        | Ref a \<Rightarrow>
            (case lookup h a of
               Some (FileList items) \<Rightarrow>
                 pos_items (\<lambda>item. leaf_positions depth isExtractable h item None) items 0
             | Some (Arr items) \<Rightarrow>
                 (case visited of
                    None \<Rightarrow> []
                  | Some V \<Rightarrow>
                      if a \<notin> V
                      then pos_items
                             (\<lambda>item. leaf_positions depth isExtractable h item (Some (insert a V)))
                             items 0
                      else [])
             | Some (Plain kvs) \<Rightarrow>
                 (case visited of
                    None \<Rightarrow> []
                  | Some V \<Rightarrow>
                      if a \<notin> V
                      then pos_props
                             (\<lambda>v. leaf_positions depth isExtractable h v (Some (insert a V)))
                             kvs
                      else [])
             | _ \<Rightarrow> []))"

text \<open>
  The path of the spec: segments joined by \<open>.\<close>, after the prefix and a \<open>.\<close> when the
  prefix is not empty. And the path of the code: each segment is appended to
  \<open>pathPrefix\<close> of the path so far.
\<close>

fun join_dots :: "string list \<Rightarrow> string" where
  "join_dots [] = []"
| "join_dots [seg] = seg"
| "join_dots (seg # segs) = seg @ ''.'' @ join_dots segs"

definition dot_path :: "string \<Rightarrow> string list \<Rightarrow> string" where
  "dot_path pfx segs = (if pfx = [] then join_dots segs else join_dots (pfx # segs))"

fun recorded_path :: "string \<Rightarrow> string list \<Rightarrow> string" where
  "recorded_path path [] = path"
| "recorded_path path (seg # segs) = recorded_path (pathPrefix path @ seg) segs"

text \<open>Reading a decimal numeral.\<close>

definition digit_value :: "char \<Rightarrow> nat" where
  "digit_value c = of_char c - 48"

definition nat_of_string :: "string \<Rightarrow> nat" where
  "nat_of_string cs = foldl (\<lambda>n c. 10 * n + digit_value c) 0 cs"


section \<open>Basic facts about the store\<close>

lemma lookup_append:
  "lookup (h @ ext) a = (if a < length h then lookup h a else lookup ext (a - length h))"
  by (auto simp: lookup_def nth_append)

lemma lookup_prefix:
  "prefix h h' \<Longrightarrow> a < length h \<Longrightarrow> lookup h' a = lookup h a"
  by (auto simp: prefix_def lookup_append)

lemma lookup_Some_less: "lookup h a = Some ob \<Longrightarrow> a < length h"
  by (simp add: lookup_def split: if_splits)

lemma lookup_list_update:
  "lookup (h[c := ob]) a = (if a = c \<and> c < length h then Some ob else lookup h a)"
  by (auto simp: lookup_def)

lemma set_prototype_cases:
  "set_prototype c v kvs h = Inr h' \<Longrightarrow> h' = h \<or> (\<exists>ob. h' = h[c := ob])"
  by (auto simp: set_prototype_def split: val.splits if_splits)

lemma store_property_cases:
  "store_property c key v found kvs rebuild h = Inr h' \<Longrightarrow> h' = h \<or> (\<exists>ob. h' = h[c := ob])"
  by (auto simp: store_property_def dest: set_prototype_cases split: if_splits slot.splits)

lemma assign_cases: "assign c key v h = Inr h' \<Longrightarrow> h' = h \<or> (\<exists>ob. h' = h[c := ob])"
  by (auto simp: assign_def dest: store_property_cases split: option.splits obj.splits if_splits)

lemma assign_plain:
  "lookup h c = Some (Plain kvs) \<Longrightarrow> key \<noteq> ''__proto__'' \<Longrightarrow>
   assign c key v h = Inr (h[c := Plain (AList.update key v kvs)])"
  by (simp add: assign_def store_property_def object_prototype_slot_def)

lemma assign_fresh_plain:
  "key \<noteq> ''__proto__'' \<Longrightarrow>
   assign (length h) key v (h @ Plain kvs # ext) = Inr (h @ Plain (AList.update key v kvs) # ext)"
  by (simp add: assign_plain [where kvs = kvs] lookup_def nth_append list_update_append)

lemma push_append:
  "length h \<le> c \<Longrightarrow> push c v (h @ ext) = h @ push (c - length h) v ext"
  by (auto simp: push_def lookup_append list_update_append split: option.splits obj.splits)

lemma length_assign: "assign c key v h = Inr h' \<Longrightarrow> length h' = length h"
  by (auto dest: assign_cases)

lemma length_push [simp]: "length (push c v h) = length h"
  by (simp add: push_def split: option.splits obj.splits)

lemma take_assign: "assign c key v h = Inr h' \<Longrightarrow> n \<le> c \<Longrightarrow> take n h' = take n h"
  by (auto dest: assign_cases)

lemma take_push [simp]: "n \<le> c \<Longrightarrow> take n (push c v h) = take n h"
  by (simp add: push_def split: option.splits obj.splits)

lemma take_length_prefix:
  "length h \<le> length h' \<Longrightarrow> take (length h) h' = h \<Longrightarrow> prefix h h'"
  by (metis take_is_prefix)

lemma prefix_list_update:
  "prefix h0 h \<Longrightarrow> length h0 \<le> c \<Longrightarrow> prefix h0 (h[c := x])"
  by (auto simp: prefix_def list_update_append)

lemma prefix_push: "prefix h0 h \<Longrightarrow> length h0 \<le> c \<Longrightarrow> prefix h0 (push c v h)"
  by (simp add: push_def prefix_list_update split: option.splits obj.splits)

lemma prefix_assign:
  "assign c key v h = Inr h' \<Longrightarrow> prefix h0 h \<Longrightarrow> length h0 \<le> c \<Longrightarrow> prefix h0 h'"
  by (auto dest: assign_cases simp: prefix_list_update)

lemma lookup_assign_other:
  "assign c key v h = Inr h' \<Longrightarrow> a \<noteq> c \<Longrightarrow> lookup h' a = lookup h a"
  by (auto dest: assign_cases simp: lookup_list_update)

lemma update_fresh_key: "key \<notin> fst ` set acc \<Longrightarrow> AList.update key r acc = acc @ [(key, r)]"
  by (induction acc) auto

lemma closed_heap_lookup:
  "closed_heap h \<Longrightarrow> lookup h a = Some ob \<Longrightarrow> v \<in> set (obj_vals ob) \<Longrightarrow> closed_val h v"
  by (auto simp: closed_heap_def lookup_def list_all_iff split: if_splits)



lemma stable_matcherD:
  "stable_matcher h isx \<Longrightarrow> prefix h h' \<Longrightarrow> closed_val h v \<Longrightarrow> isx h' v = isx h v"
  by (auto simp: stable_matcher_def prefix_def)

lemma default_matcher_stable: "stable_matcher h defaultIsExtractableFile"
  by (auto simp: stable_matcher_def closed_val_def defaultIsExtractableFile_def lookup_append
      split: val.splits)

lemma default_matcher_append:
  "a < length h \<Longrightarrow> defaultIsExtractableFile (h @ ext) (Ref a) = defaultIsExtractableFile h (Ref a)"
  by (simp add: defaultIsExtractableFile_def lookup_append)


section \<open>The steps of recurse\<close>

lemma recurse_extractable:
  "isx (heap s) v \<Longrightarrow>
   recurse (Suc d) isx v path recursed s = Inr (Prim Null, s\<lparr>files := addFile v path (files s)\<rparr>)"
  by simp

lemma recurse_prim:
  "\<not> isx (heap s) (Prim p) \<Longrightarrow> recurse (Suc d) isx (Prim p) path recursed s = Inr (Prim p, s)"
  by simp

lemma recurse_filelist:
  "\<not> isx (heap s) (Ref a) \<Longrightarrow> lookup (heap s) a = Some (FileList items) \<Longrightarrow>
   recurse (Suc d) isx (Ref a) path recursed s =
     array_map (\<lambda>item index. recurse d isx item (pathPrefix path @ string_of_nat index) None) items s"
  by (simp add: Let_def)

lemma recurse_array:
  "\<not> isx (heap s) (Ref a) \<Longrightarrow> lookup (heap s) a = Some (Arr items) \<Longrightarrow> a \<notin> R \<Longrightarrow>
   recurse (Suc d) isx (Ref a) path (Some R) s =
     array_map (\<lambda>item index. recurse d isx item (pathPrefix path @ string_of_nat index)
                 (Some (insert a R))) items s"
  by (simp add: Let_def)

lemma recurse_plain:
  "\<not> isx (heap s) (Ref a) \<Longrightarrow> lookup (heap s) a = Some (Plain kvs) \<Longrightarrow> a \<notin> R \<Longrightarrow>
   recurse (Suc d) isx (Ref a) path (Some R) s =
     (case for_in (\<lambda>key v. recurse d isx v (pathPrefix path @ key) (Some (insert a R)))
             (length (heap s)) kvs (s\<lparr>heap := heap s @ [Plain []]\<rparr>) of
        Inl e \<Rightarrow> Inl e
      | Inr s' \<Rightarrow> Inr (Ref (length (heap s)), s'))"
  by (simp add: Let_def)

lemma recurse_seen:
  "\<not> isx (heap s) (Ref a) \<Longrightarrow> lookup (heap s) a = Some (Arr items) \<or> lookup (heap s) a = Some (Plain kvs) \<Longrightarrow>
   a \<in> R \<Longrightarrow> recurse (Suc d) isx (Ref a) path (Some R) s = Inr (Ref a, s)"
  by auto

lemma recurse_undefined:
  "\<not> isx (heap s) (Ref a) \<Longrightarrow> lookup (heap s) a = Some (Arr items) \<or> lookup (heap s) a = Some (Plain kvs) \<Longrightarrow>
   recurse (Suc d) isx (Ref a) path None s = Inl TypeError"
  by auto

lemma recurse_other:
  "\<not> isx (heap s) (Ref a) \<Longrightarrow>
   lookup (heap s) a = None \<or> lookup (heap s) a = Some (Inst cls props ro)
     \<or> lookup (heap s) a = Some (Derived p kvs) \<Longrightarrow>
   recurse (Suc d) isx (Ref a) path recursed s = Inr (Ref a, s)"
  by auto

lemma array_map_Inr:
  "array_map f items s = Inr (r, s') \<longleftrightarrow>
     r = Ref (length (heap s)) \<and>
     map_loop f (length (heap s)) items 0 (s\<lparr>heap := heap s @ [Arr []]\<rparr>) = Inr s'"
  by (auto simp: array_map_def Let_def split: sum.splits)


section \<open>A call only appends to the store\<close>

lemma map_loop_frame:
  assumes f: "\<forall>item k s r s1. f item k s = Inr (r, s1) \<longrightarrow> prefix (heap s) (heap s1)"
  shows "map_loop f c items k s = Inr s' \<Longrightarrow> c \<le> length (heap s) \<Longrightarrow>
         length (heap s) \<le> length (heap s') \<and> take c (heap s') = take c (heap s)"
proof (induction items arbitrary: k s)
  case Nil
  then show ?case by simp
next
  case (Cons item items)
  from Cons.prems(1) obtain r s1 where 1: "f item k s = Inr (r, s1)"
    and 2: "map_loop f c items (Suc k) (s1\<lparr>heap := push c r (heap s1)\<rparr>) = Inr s'"
    by (auto split: sum.splits)
  from f 1 obtain ext where ext: "heap s1 = heap s @ ext"
    unfolding prefix_def by blast
  from Cons.IH [OF 2] Cons.prems(2) ext show ?case
    by simp
qed

lemma for_in_frame:
  assumes f: "\<forall>key v s r s1. f key v s = Inr (r, s1) \<longrightarrow> prefix (heap s) (heap s1)"
  shows "for_in f c kvs s = Inr s' \<Longrightarrow> c \<le> length (heap s) \<Longrightarrow>
         length (heap s) \<le> length (heap s') \<and> take c (heap s') = take c (heap s)"
proof (induction kvs arbitrary: s)
  case Nil
  then show ?case by simp
next
  case (Cons kv kvs)
  obtain key v where kv: "kv = (key, v)" by (cases kv)
  from Cons.prems(1) kv obtain r s1 h1 where 1: "f key v s = Inr (r, s1)"
    and w: "assign c key r (heap s1) = Inr h1"
    and 2: "for_in f c kvs (s1\<lparr>heap := h1\<rparr>) = Inr s'"
    by (auto split: sum.splits)
  from f 1 obtain ext where ext: "heap s1 = heap s @ ext"
    unfolding prefix_def by blast
  from Cons.IH [OF 2] Cons.prems(2) ext length_assign [OF w] take_assign [OF w, of c] show ?case
    by simp
qed

lemma array_map_frame:
  assumes f: "\<forall>item k s r s1. f item k s = Inr (r, s1) \<longrightarrow> prefix (heap s) (heap s1)"
    and "array_map f items s = Inr (r, s')"
  shows "prefix (heap s) (heap s')"
proof -
  from assms(2) have 1: "map_loop f (length (heap s)) items 0 (s\<lparr>heap := heap s @ [Arr []]\<rparr>) = Inr s'"
    by (auto simp: array_map_def Let_def split: sum.splits)
  have "length (heap s) \<le> length (heap (s\<lparr>heap := heap s @ [Arr []]\<rparr>))"
    by simp
  from map_loop_frame [OF f 1 this] show ?thesis
    by (auto intro: take_length_prefix)
qed

lemma recurse_frame:
  "recurse d isx v path recursed s = Inr (r, s') \<Longrightarrow> prefix (heap s) (heap s')"
proof (induction d arbitrary: v path recursed s r s')
  case 0
  then show ?case by simp
next
  case (Suc d)
  note run = Suc.prems
  show ?case
  proof (cases "isx (heap s) v")
    case True
    with run show ?thesis by auto
  next
    case nx: False
    show ?thesis
    proof (cases v)
      case (Prim p)
      with nx run show ?thesis by auto
    next
      case (Ref a)
      show ?thesis
      proof (cases "lookup (heap s) a")
        case None
        with nx Ref run show ?thesis by (simp add: recurse_other del: recurse.simps)
      next
        case (Some ob)
        show ?thesis
        proof (cases ob)
          case (Arr items)
          show ?thesis
          proof (cases recursed)
            case None
            with nx Ref Some Arr run show ?thesis by (simp add: recurse_undefined del: recurse.simps)
          next
            case R: (Some R)
            show ?thesis
            proof (cases "a \<in> R")
              case True
              with nx Ref Some Arr R run show ?thesis by (simp add: recurse_seen del: recurse.simps)
            next
              case False
              with nx Ref Some Arr R run have
                "array_map (\<lambda>item index. recurse d isx item (pathPrefix path @ string_of_nat index)
                    (Some (insert a R))) items s = Inr (r, s')"
                by (simp add: recurse_array del: recurse.simps)
              moreover have "\<forall>item k s r s1.
                  recurse d isx item (pathPrefix path @ string_of_nat k) (Some (insert a R)) s = Inr (r, s1)
                    \<longrightarrow> prefix (heap s) (heap s1)"
                using Suc.IH by blast
              ultimately show ?thesis
                by (rule array_map_frame [rotated])
            qed
          qed
        next
          case (Plain kvs)
          show ?thesis
          proof (cases recursed)
            case None
            with nx Ref Some Plain run show ?thesis by (simp add: recurse_undefined del: recurse.simps)
          next
            case R: (Some R)
            show ?thesis
            proof (cases "a \<in> R")
              case True
              with nx Ref Some Plain R run show ?thesis by (simp add: recurse_seen del: recurse.simps)
            next
              case False
              with nx Ref Some Plain R run have
                "for_in (\<lambda>key v. recurse d isx v (pathPrefix path @ key) (Some (insert a R)))
                   (length (heap s)) kvs (s\<lparr>heap := heap s @ [Plain []]\<rparr>) = Inr s'"
                by (simp add: recurse_plain del: recurse.simps split: sum.splits)
              moreover have "length (heap s) \<le> length (heap (s\<lparr>heap := heap s @ [Plain []]\<rparr>))"
                by simp
              moreover have "\<forall>key v s r s1.
                  recurse d isx v (pathPrefix path @ key) (Some (insert a R)) s = Inr (r, s1)
                    \<longrightarrow> prefix (heap s) (heap s1)"
                using Suc.IH by blast
              ultimately have "length (heap (s\<lparr>heap := heap s @ [Plain []]\<rparr>)) \<le> length (heap s') \<and>
                  take (length (heap s)) (heap s') = take (length (heap s)) (heap (s\<lparr>heap := heap s @ [Plain []]\<rparr>))"
                by (rule for_in_frame [rotated 1])
              then show ?thesis
                by (auto intro: take_length_prefix)
            qed
          qed
        next
          case (FileList items)
          with nx Ref Some run have
            "array_map (\<lambda>item index. recurse d isx item (pathPrefix path @ string_of_nat index) None)
               items s = Inr (r, s')"
            by (simp add: recurse_filelist del: recurse.simps)
          moreover have "\<forall>item k s r s1.
              recurse d isx item (pathPrefix path @ string_of_nat k) None s = Inr (r, s1)
                \<longrightarrow> prefix (heap s) (heap s1)"
            using Suc.IH by blast
          ultimately show ?thesis
            by (rule array_map_frame [rotated])
        next
          case (Inst cls props ro)
          with nx Ref Some run show ?thesis by (simp add: recurse_other del: recurse.simps)
        next
          case (Derived p props)
          with nx Ref Some run show ?thesis by (simp add: recurse_other del: recurse.simps)
        qed
      qed
    qed
  qed
qed


section \<open>Enough stack is enough\<close>






section \<open>What a clone holds\<close>

lemma for_in_content:
  assumes fr: "\<forall>key v s r s1. f key v s = Inr (r, s1) \<longrightarrow> prefix (heap s) (heap s1)"
  shows "for_in f c kvs s = Inr s' \<Longrightarrow> lookup (heap s) c = Some (Plain acc) \<Longrightarrow>
         distinct (map fst kvs) \<Longrightarrow> fst ` set kvs \<inter> fst ` set acc = {} \<Longrightarrow>
         ''__proto__'' \<notin> fst ` set kvs \<Longrightarrow>
         \<exists>kvs'. lookup (heap s') c = Some (Plain (acc @ kvs')) \<and>
           list_all2 (\<lambda>(key, v) (key', r). key' = key \<and> (\<exists>s1 s2. f key v s1 = Inr (r, s2))) kvs kvs'"
proof (induction kvs arbitrary: s acc)
  case Nil
  then show ?case by simp
next
  case (Cons kv kvs)
  obtain key v where kv: "kv = (key, v)" by (cases kv)
  from Cons.prems(1) kv obtain r s1 h1 where 1: "f key v s = Inr (r, s1)"
    and w: "assign c key r (heap s1) = Inr h1"
    and 2: "for_in f c kvs (s1\<lparr>heap := h1\<rparr>) = Inr s'"
    by (auto split: sum.splits)
  from Cons.prems(2) have c: "c < length (heap s)" by (rule lookup_Some_less)
  from fr 1 have "prefix (heap s) (heap s1)" by blast
  with c Cons.prems(2) have clone: "lookup (heap s1) c = Some (Plain acc)"
    by (simp add: lookup_prefix)
  from Cons.prems(4) kv have fresh: "key \<notin> fst ` set acc" by auto
  from Cons.prems(5) kv have "key \<noteq> ''__proto__''" by auto
  with clone w have "h1 = (heap s1)[c := Plain (AList.update key r acc)]"
    by (simp add: assign_plain)
  with clone fresh have 3: "lookup (heap (s1\<lparr>heap := h1\<rparr>)) c = Some (Plain (acc @ [(key, r)]))"
    by (simp add: update_fresh_key lookup_list_update lookup_Some_less)
  from Cons.prems(3,4,5) kv have 4: "distinct (map fst kvs)"
    and 5: "fst ` set kvs \<inter> fst ` set (acc @ [(key, r)]) = {}"
    and 6: "''__proto__'' \<notin> fst ` set kvs"
    by auto
  from Cons.IH [OF 2 3 4 5 6] obtain kvs' where
    "lookup (heap s') c = Some (Plain ((acc @ [(key, r)]) @ kvs'))"
    "list_all2 (\<lambda>(key, v) (key', r). key' = key \<and> (\<exists>s1 s2. f key v s1 = Inr (r, s2))) kvs kvs'"
    by blast
  with 1 kv have "lookup (heap s') c = Some (Plain (acc @ ((key, r) # kvs'))) \<and>
     list_all2 (\<lambda>(key, v) (key', r). key' = key \<and> (\<exists>s1 s2. f key v s1 = Inr (r, s2))) (kv # kvs) ((key, r) # kvs')"
    by auto
  then show ?case by blast
qed

lemma map_loop_content:
  assumes fr: "\<forall>item k s r s1. f item k s = Inr (r, s1) \<longrightarrow> prefix (heap s) (heap s1)"
  shows "map_loop f c items k s = Inr s' \<Longrightarrow> lookup (heap s) c = Some (Arr acc) \<Longrightarrow>
         \<exists>rs. lookup (heap s') c = Some (Arr (acc @ rs)) \<and> length rs = length items \<and>
           (\<forall>i<length items. \<exists>s1 s2. f (items ! i) (k + i) s1 = Inr (rs ! i, s2))"
proof (induction items arbitrary: s acc k)
  case Nil
  then show ?case by simp
next
  case (Cons item items)
  from Cons.prems(1) obtain r s1 where 1: "f item k s = Inr (r, s1)"
    and 2: "map_loop f c items (Suc k) (s1\<lparr>heap := push c r (heap s1)\<rparr>) = Inr s'"
    by (auto split: sum.splits)
  from Cons.prems(2) have c: "c < length (heap s)" by (rule lookup_Some_less)
  from fr 1 have "prefix (heap s) (heap s1)" by blast
  with c Cons.prems(2) have "lookup (heap s1) c = Some (Arr acc)"
    by (simp add: lookup_prefix)
  then have 3: "lookup (heap (s1\<lparr>heap := push c r (heap s1)\<rparr>)) c = Some (Arr (acc @ [r]))"
    by (simp add: push_def lookup_list_update lookup_Some_less)
  from Cons.IH [OF 2 3] obtain rs where rs:
    "lookup (heap s') c = Some (Arr ((acc @ [r]) @ rs))" "length rs = length items"
    "\<forall>i<length items. \<exists>s1 s2. f (items ! i) (Suc k + i) s1 = Inr (rs ! i, s2)"
    by blast
  have "\<exists>s1 s2. f ((item # items) ! i) (k + i) s1 = Inr ((r # rs) ! i, s2)"
    if "i < length (item # items)" for i
  proof (cases i)
    case 0
    with 1 show ?thesis by auto
  next
    case (Suc j)
    with that rs(3) show ?thesis by simp
  qed
  with rs(1,2) have "lookup (heap s') c = Some (Arr (acc @ (r # rs))) \<and>
     length (r # rs) = length (item # items) \<and>
     (\<forall>i<length (item # items). \<exists>s1 s2. f ((item # items) ! i) (k + i) s1 = Inr ((r # rs) ! i, s2))"
    by simp
  then show ?case by blast
qed

lemma list_all2_same_keys:
  "list_all2 (\<lambda>(key, v) (key', r). key' = key \<and> P key v r) kvs kvs' \<Longrightarrow> map fst kvs' = map fst kvs"
  by (induction kvs kvs' rule: list_all2_induct) auto

lemma container_clone_fresh:
  assumes ob: "lookup (heap s) a = Some (Arr items) \<or> lookup (heap s) a = Some (Plain kvs)"
    and nx: "\<not> isx (heap s) (Ref a)" and new: "a \<notin> V"
    and run: "recurse (Suc d) isx (Ref a) path (Some V) s = Inr (r, s')"
  shows "r = Ref (length (heap s)) \<and> length (heap s) < length (heap s')"
  using ob
proof
  assume arr: "lookup (heap s) a = Some (Arr items)"
  let ?f = "\<lambda>item k. recurse d isx item (pathPrefix path @ string_of_nat k) (Some (insert a V))"
  from arr nx new run have r: "r = Ref (length (heap s))"
    and loop: "map_loop ?f (length (heap s)) items 0 (s\<lparr>heap := heap s @ [Arr []]\<rparr>) = Inr s'"
    by (simp_all add: recurse_array array_map_Inr del: recurse.simps)
  have fr: "\<forall>item k s r s1. ?f item k s = Inr (r, s1) \<longrightarrow> prefix (heap s) (heap s1)"
    by (blast dest: recurse_frame)
  have "length (heap s) \<le> length (heap (s\<lparr>heap := heap s @ [Arr []]\<rparr>))" by simp
  from map_loop_frame [where f = ?f, OF fr loop this] r show ?thesis by simp
next
  assume plain: "lookup (heap s) a = Some (Plain kvs)"
  let ?f = "\<lambda>key v. recurse d isx v (pathPrefix path @ key) (Some (insert a V))"
  from plain nx new run have r: "r = Ref (length (heap s))"
    and loop: "for_in ?f (length (heap s)) kvs (s\<lparr>heap := heap s @ [Plain []]\<rparr>) = Inr s'"
    by (auto simp: recurse_plain simp del: recurse.simps split: sum.splits)
  have fr: "\<forall>key v s r s1. ?f key v s = Inr (r, s1) \<longrightarrow> prefix (heap s) (heap s1)"
    by (blast dest: recurse_frame)
  have "length (heap s) \<le> length (heap (s\<lparr>heap := heap s @ [Plain []]\<rparr>))" by simp
  from for_in_frame [where f = ?f, OF fr loop this] r show ?thesis by simp
qed


section \<open>The index is the list of occurrences\<close>

lemma map_of_addFile:
  "map_of (addFile file path fs) g =
     (if g = file then Some ((case map_of fs file of None \<Rightarrow> [] | Some ps \<Rightarrow> ps) @ [path])
      else map_of fs g)"
  by (simp add: addFile_def AList.update_conv' map_add_def split: option.splits)

lemma keys_addFile:
  "map fst (addFile file path fs) =
     (if file \<in> fst ` set fs then map fst fs else map fst fs @ [file])"
proof (cases "map_of fs file")
  case None
  then have "file \<notin> fst ` set fs"
    by (simp add: map_of_eq_None_iff)
  then show ?thesis
    by (simp add: addFile_def None)
next
  case (Some ps)
  then have "(file, ps) \<in> set fs"
    by (rule map_of_SomeD)
  then have "file \<in> fst ` set fs"
    by force
  with Some show ?thesis
    by (simp add: addFile_def AList.update_keys)
qed

lemma distinct_addFile:
  "distinct (map fst fs) \<Longrightarrow> distinct (map fst (addFile file path fs))"
  by (simp add: keys_addFile)

lemma addFiles_append: "addFiles (xs @ ys) fs = addFiles ys (addFiles xs fs)"
  by (induction xs fs rule: addFiles.induct) simp_all


lemma distinct_addFiles:
  "distinct (map fst fs) \<Longrightarrow> distinct (map fst (addFiles occs fs))"
  by (induction occs fs rule: addFiles.induct) (simp_all add: distinct_addFile)

lemma map_of_addFiles:
  "map_of (addFiles occs fs) g =
     (if g \<in> fst ` set occs
      then Some ((case map_of fs g of None \<Rightarrow> [] | Some ps \<Rightarrow> ps) @ map snd (filter (\<lambda>oc. fst oc = g) occs))
      else map_of fs g)"
  by (induction occs fs rule: addFiles.induct)
     (auto simp: map_of_addFile filter_empty_conv image_iff)

lemma files_member_occurrence:
  assumes "(f, ps) \<in> set (addFiles occs [])" and "q \<in> set ps"
  shows "(f, q) \<in> set occs"
proof -
  have "distinct (map fst (addFiles occs []))"
    by (rule distinct_addFiles) simp
  with assms(1) have "map_of (addFiles occs []) f = Some ps"
    by simp
  with assms(2) show ?thesis
    by (auto simp: map_of_addFiles split: if_splits)
qed

lemma recorded_in_index:
  assumes "files s' = addFiles occs []" and "(f, q) \<in> set occs"
  shows "\<exists>ps. map_of (files s') f = Some ps \<and> q \<in> set ps"
  using assms by (force simp: map_of_addFiles)

lemma map_loop_files:
  assumes step: "\<forall>item k s r s1. item \<in> set items \<and> prefix h (heap s) \<and> f item k s = Inr (r, s1)
                   \<longrightarrow> files s1 = addFiles (g item k) (files s)"
    and fr: "\<forall>item k s r s1. f item k s = Inr (r, s1) \<longrightarrow> prefix (heap s) (heap s1)"
    and c: "length h \<le> c"
  shows "map_loop f c items k s = Inr s' \<Longrightarrow> prefix h (heap s) \<Longrightarrow>
         files s' = addFiles (occ_items g items k) (files s)"
  using step
proof (induction items arbitrary: k s)
  case Nil
  then show ?case by simp
next
  case (Cons item items)
  from Cons.prems(1) obtain r s1 where 1: "f item k s = Inr (r, s1)"
    and 2: "map_loop f c items (Suc k) (s1\<lparr>heap := push c r (heap s1)\<rparr>) = Inr s'"
    by (auto split: sum.splits)
  from Cons.prems(2,3) 1 have 3: "files s1 = addFiles (g item k) (files s)"
    by (meson list.set_intros(1))
  from fr 1 have "prefix (heap s) (heap s1)" by blast
  with Cons.prems(2) have "prefix h (heap s1)" by (rule prefix_order.trans)
  with c have "prefix h (heap (s1\<lparr>heap := push c r (heap s1)\<rparr>))"
    by (simp add: prefix_push)
  from Cons.IH [OF 2 this] Cons.prems(3) 3 show ?case
    by (simp add: addFiles_append)
qed

lemma for_in_files:
  assumes step: "\<forall>key v s r s1. v \<in> snd ` set kvs \<and> prefix h (heap s) \<and> f key v s = Inr (r, s1)
                   \<longrightarrow> files s1 = addFiles (g key v) (files s)"
    and fr: "\<forall>key v s r s1. f key v s = Inr (r, s1) \<longrightarrow> prefix (heap s) (heap s1)"
    and c: "length h \<le> c"
  shows "for_in f c kvs s = Inr s' \<Longrightarrow> prefix h (heap s) \<Longrightarrow>
         files s' = addFiles (occ_props g kvs) (files s)"
  using step
proof (induction kvs arbitrary: s)
  case Nil
  then show ?case by simp
next
  case (Cons kv kvs)
  obtain key v where kv: "kv = (key, v)" by (cases kv)
  from Cons.prems(1) kv obtain r s1 h1 where 1: "f key v s = Inr (r, s1)"
    and w: "assign c key r (heap s1) = Inr h1"
    and 2: "for_in f c kvs (s1\<lparr>heap := h1\<rparr>) = Inr s'"
    by (auto split: sum.splits)
  from Cons.prems(2,3) 1 kv have 3: "files s1 = addFiles (g key v) (files s)"
    by force
  from fr 1 have "prefix (heap s) (heap s1)" by blast
  with Cons.prems(2) have "prefix h (heap s1)" by (rule prefix_order.trans)
  with c w have "prefix h (heap (s1\<lparr>heap := h1\<rparr>))"
    by (simp add: prefix_assign)
  from Cons.IH [OF 2 this] Cons.prems(3) 3 kv show ?case
    by (simp add: addFiles_append)
qed

lemma recurse_files:
  assumes wf: "closed_heap h" and st: "stable_matcher h isx"
  shows "recurse d isx v path R s = Inr (r, s') \<Longrightarrow> prefix h (heap s) \<Longrightarrow> closed_val h v \<Longrightarrow>
         files s' = addFiles (occurrences d isx h v path R) (files s)"
proof (induction d arbitrary: v path R s r s')
  case 0
  then show ?case by simp
next
  case (Suc d)
  note run = Suc.prems(1) and ext = Suc.prems(2) and cv = Suc.prems(3)
  from st ext cv have isx: "isx (heap s) v = isx h v" by (rule stable_matcherD)
  show ?case
  proof (cases "isx h v")
    case True
    with isx run have "files s' = addFile v path (files s)" by auto
    with True show ?thesis by simp
  next
    case nx: False
    show ?thesis
    proof (cases v)
      case (Prim p)
      with nx isx run have "s' = s" by auto
      with nx Prim show ?thesis by simp
    next
      case (Ref a)
      with cv have a: "a < length h" by (simp add: closed_val_def)
      with ext have same: "lookup (heap s) a = lookup h a" by (rule lookup_prefix)
      from ext have len: "length h \<le> length (heap s)" by (rule prefix_length_le)
      from a have "lookup h a = Some (h ! a)" by (simp add: lookup_def)
      with same obtain ob where ob: "lookup (heap s) a = Some ob" "lookup h a = Some ob" by simp
      from nx isx Ref have nxs: "\<not> isx (heap s) (Ref a)" by simp
      have fr: "\<forall>item (k::nat) s r s1. recurse d isx item (p k) R' s = Inr (r, s1) \<longrightarrow> prefix (heap s) (heap s1)"
        for p R'
        by (blast dest: recurse_frame)
      have fr': "\<forall>(key::string) v s r s1. recurse d isx v (p key) R' s = Inr (r, s1) \<longrightarrow> prefix (heap s) (heap s1)"
        for p R'
        by (blast dest: recurse_frame)
      show ?thesis
      proof (cases ob)
        case (Arr items)
        show ?thesis
        proof (cases R)
          case None
          with nxs ob Arr Ref run show ?thesis
            by (simp add: recurse_undefined del: recurse.simps)
        next
          case (Some V)
          show ?thesis
          proof (cases "a \<in> V")
            case True
            with nxs ob Arr Ref Some run have "s' = s"
              by (simp add: recurse_seen del: recurse.simps)
            moreover have "occurrences (Suc d) isx h v path R = []"
              using nx ob(2) Arr Ref Some True by simp
            ultimately show ?thesis by simp
          next
            case False
            let ?f = "\<lambda>item k. recurse d isx item (pathPrefix path @ string_of_nat k) (Some (insert a V))"
            let ?g = "\<lambda>item k. occurrences d isx h item (pathPrefix path @ string_of_nat k) (Some (insert a V))"
            from nxs ob Arr Ref Some False run
            have loop: "map_loop ?f (length (heap s)) items 0 (s\<lparr>heap := heap s @ [Arr []]\<rparr>) = Inr s'"
              by (simp add: recurse_array array_map_Inr del: recurse.simps)
            have step: "\<forall>item k s r s1. item \<in> set items \<and> prefix h (heap s) \<and> ?f item k s = Inr (r, s1)
                   \<longrightarrow> files s1 = addFiles (?g item k) (files s)"
              using closed_heap_lookup [OF wf ob(2)] Arr Suc.IH by auto
            have "prefix h (heap (s\<lparr>heap := heap s @ [Arr []]\<rparr>))"
              using ext by (auto simp: prefix_def)
            from map_loop_files [where f = ?f and g = ?g, OF step fr len loop this]
            show ?thesis
              using nx ob Arr Ref Some False by simp
          qed
        qed
      next
        case (Plain kvs)
        show ?thesis
        proof (cases R)
          case None
          with nxs ob Plain Ref run show ?thesis
            by (simp add: recurse_undefined del: recurse.simps)
        next
          case (Some V)
          show ?thesis
          proof (cases "a \<in> V")
            case True
            with nxs ob Plain Ref Some run have "s' = s"
              by (simp add: recurse_seen del: recurse.simps)
            moreover have "occurrences (Suc d) isx h v path R = []"
              using nx ob(2) Plain Ref Some True by simp
            ultimately show ?thesis by simp
          next
            case False
            let ?f = "\<lambda>key v. recurse d isx v (pathPrefix path @ key) (Some (insert a V))"
            let ?g = "\<lambda>key v. occurrences d isx h v (pathPrefix path @ key) (Some (insert a V))"
            from nxs ob Plain Ref Some False run
            have loop: "for_in ?f (length (heap s)) kvs (s\<lparr>heap := heap s @ [Plain []]\<rparr>) = Inr s'"
              by (auto simp: recurse_plain simp del: recurse.simps split: sum.splits)
            have step: "\<forall>key v s r s1. v \<in> snd ` set kvs \<and> prefix h (heap s) \<and> ?f key v s = Inr (r, s1)
                   \<longrightarrow> files s1 = addFiles (?g key v) (files s)"
              using closed_heap_lookup [OF wf ob(2)] Plain Suc.IH by auto
            have "prefix h (heap (s\<lparr>heap := heap s @ [Plain []]\<rparr>))"
              using ext by (auto simp: prefix_def)
            from for_in_files [where f = ?f and g = ?g, OF step fr' len loop this]
            show ?thesis
              using nx ob Plain Ref Some False by simp
          qed
        qed
      next
        case (FileList items)
        let ?f = "\<lambda>item k. recurse d isx item (pathPrefix path @ string_of_nat k) None"
        let ?g = "\<lambda>item k. occurrences d isx h item (pathPrefix path @ string_of_nat k) None"
        from nxs ob FileList Ref run
        have loop: "map_loop ?f (length (heap s)) items 0 (s\<lparr>heap := heap s @ [Arr []]\<rparr>) = Inr s'"
          by (simp add: recurse_filelist array_map_Inr del: recurse.simps)
        have step: "\<forall>item k s r s1. item \<in> set items \<and> prefix h (heap s) \<and> ?f item k s = Inr (r, s1)
               \<longrightarrow> files s1 = addFiles (?g item k) (files s)"
          using closed_heap_lookup [OF wf ob(2)] FileList Suc.IH by auto
        have "prefix h (heap (s\<lparr>heap := heap s @ [Arr []]\<rparr>))"
          using ext by (auto simp: prefix_def)
        from map_loop_files [where f = ?f and g = ?g, OF step fr len loop this]
        show ?thesis
          using nx ob FileList Ref by simp
      next
        case (Inst cls props ro)
        with nxs ob Ref run have "s' = s"
          by (simp add: recurse_other del: recurse.simps)
        moreover have "occurrences (Suc d) isx h v path R = []"
          using nx ob(2) Inst Ref by simp
        ultimately show ?thesis by simp
      next
        case (Derived p props)
        with nxs ob Ref run have "s' = s"
          by (simp add: recurse_other del: recurse.simps)
        moreover have "occurrences (Suc d) isx h v path R = []"
          using nx ob(2) Derived Ref by simp
        ultimately show ?thesis by simp
      qed
    qed
  qed
qed


section \<open>Occurrences and positions\<close>

lemma resolve_child:
  "(seg, w) \<in> set (children h v) \<Longrightarrow> f \<in> set (resolve h w segs) \<Longrightarrow>
   f \<in> set (resolve h v (seg # segs))"
  by force

lemma index_child: "i < length items \<Longrightarrow>
  (string_of_nat i, items ! i) \<in> set (zip (map string_of_nat [0..<length items]) items)"
  by (force simp: set_zip)

lemma occ_items_intro:
  "i < length items \<Longrightarrow> oc \<in> set (g (items ! i) (k + i)) \<Longrightarrow> oc \<in> set (occ_items g items k)"
proof (induction items arbitrary: i k)
  case Nil
  then show ?case by simp
next
  case (Cons item items)
  show ?case
  proof (cases i)
    case 0
    with Cons.prems show ?thesis by simp
  next
    case (Suc j)
    with Cons.prems have "j < length items" "oc \<in> set (g (items ! j) (Suc k + j))"
      by simp_all
    from Cons.IH [OF this] show ?thesis by simp
  qed
qed

lemma occ_props_intro:
  "(key, v) \<in> set kvs \<Longrightarrow> oc \<in> set (g key v) \<Longrightarrow> oc \<in> set (occ_props g kvs)"
  by (induction g kvs rule: occ_props.induct) auto

lemma index_child_elim:
  "(seg, u) \<in> set (zip (map string_of_nat [0..<length items]) items) \<Longrightarrow>
   \<exists>i<length items. seg = string_of_nat i \<and> u = items ! i"
  by (auto simp: set_zip)

lemma occurrences_complete:
  "reaches isx h V v segs f \<Longrightarrow> isx h f \<Longrightarrow> length segs < d \<Longrightarrow>
   (f, recorded_path path segs) \<in> set (occurrences d isx h v path (Some V))"
proof (induction segs arbitrary: v V path d)
  case Nil
  then obtain d' where "d = Suc d'" by (cases d) auto
  with Nil show ?case by simp
next
  case (Cons seg segs)
  from Cons.prems(3) obtain d' where d: "d = Suc d'" "length segs < d'"
    by (cases d) auto
  from Cons.prems(1) obtain a where v: "v = Ref a" and nx: "\<not> isx h v" and a: "a \<notin> V"
    by (cases v) auto
  from Cons.prems(1) v obtain ob where ob: "lookup h a = Some ob"
    by (cases "lookup h a") auto
  have rec: "(f, recorded_path path (seg # segs))
      \<in> set (occurrences d' isx h u (pathPrefix path @ seg) (Some (insert a V)))"
    if "reaches isx h (insert a V) u segs f" for u
    using Cons.IH [OF that Cons.prems(2) d(2)] by simp
  show ?case
  proof (cases ob)
    case (Arr items)
    with Cons.prems(1) v ob obtain u where u: "(seg, u) \<in> set (children h v)"
      "reaches isx h (insert a V) u segs f"
      by (auto simp: list_ex_iff)
    from u(1) v ob Arr obtain i where i: "i < length items" "seg = string_of_nat i" "u = items ! i"
      by (auto simp: children_def dest: index_child_elim)
    from rec [OF u(2)] i have
      "(f, recorded_path path (seg # segs)) \<in> set (occ_items (\<lambda>item index. occurrences d' isx h item
            (pathPrefix path @ string_of_nat index) (Some (insert a V))) items 0)"
      by (intro occ_items_intro [of i]) simp_all
    with nx v a ob Arr d show ?thesis by simp
  next
    case (Plain kvs)
    with Cons.prems(1) v ob obtain u where u: "(seg, u) \<in> set kvs"
      "reaches isx h (insert a V) u segs f"
      by (auto simp: list_ex_iff children_def)
    from rec [OF u(2)] u(1) have
      "(f, recorded_path path (seg # segs)) \<in> set (occ_props (\<lambda>key v. occurrences d' isx h v
            (pathPrefix path @ key) (Some (insert a V))) kvs)"
      by (intro occ_props_intro [of seg u]) simp_all
    with nx v a ob Plain d show ?thesis by simp
  next
    case (FileList items)
    with Cons.prems(1) v ob show ?thesis by simp
  next
    case (Inst cls props ro)
    with Cons.prems(1) v ob show ?thesis by simp
  next
    case (Derived p props)
    with Cons.prems(1) v ob show ?thesis by simp
  qed
qed

lemma reached_leaf_is_indexed:
  assumes "closed_heap h" and "closed_val h v" and "stable_matcher h isx"
    and "extractFiles depth h v path isx = Inr (clone, s')"
    and "reaches isx h {} v segs f" and "isx h f" and "length segs < depth"
  shows "\<exists>ps. map_of (files s') f = Some ps \<and> recorded_path path segs \<in> set ps"
proof -
  let ?occs = "occurrences depth isx h v path (Some {})"
  from assms(1-4) have "files s' = addFiles ?occs []"
    unfolding extractFiles_def by (auto dest: recurse_files)
  moreover from assms(5-7) have "(f, recorded_path path segs) \<in> set ?occs"
    by (rule occurrences_complete)
  ultimately show ?thesis
    by (rule recorded_in_index)
qed


section \<open>Paths and decimal indices\<close>

lemma join_dots_Cons: "segs \<noteq> [] \<Longrightarrow> join_dots (seg # segs) = seg @ ''.'' @ join_dots segs"
  by (cases segs) simp_all

lemma join_dots_merge: "join_dots ((a @ ''.'' @ b) # segs) = a @ ''.'' @ join_dots (b # segs)"
  by (cases segs) simp_all

lemma recorded_path_nonempty:
  "path \<noteq> [] \<Longrightarrow> recorded_path path segs = join_dots (path # segs)"
proof (induction segs arbitrary: path)
  case Nil
  then show ?case by simp
next
  case (Cons seg segs)
  have "recorded_path path (seg # segs) = recorded_path (path @ ''.'' @ seg) segs"
    using Cons.prems by (simp add: pathPrefix_def)
  also have "\<dots> = join_dots ((path @ ''.'' @ seg) # segs)"
    by (rule Cons.IH) simp
  also have "\<dots> = join_dots (path # seg # segs)"
    using join_dots_merge [of path seg segs] by simp
  finally show ?case .
qed

lemma recorded_path_join:
  "recorded_path path segs = join_dots (dropWhile (\<lambda>s. s = []) (path # segs))"
proof (cases "path = []")
  case False
  then show ?thesis by (simp add: recorded_path_nonempty)
next
  case True
  have "recorded_path [] segs = join_dots (dropWhile (\<lambda>s. s = []) segs)"
  proof (induction segs)
    case Nil
    then show ?case by simp
  next
    case (Cons seg segs)
    then show ?case
      by (cases "seg = []") (simp_all add: pathPrefix_def recorded_path_nonempty)
  qed
  with True show ?thesis by simp
qed

lemma recorded_path_dot_path:
  "path \<noteq> [] \<or> segs = [] \<or> hd segs \<noteq> [] \<Longrightarrow> recorded_path path segs = dot_path path segs"
  by (cases segs) (auto simp: recorded_path_join dot_path_def)

lemma string_of_nat_0: "string_of_nat 0 = ''0''"
  by (simp add: string_of_nat.simps digit_def)

lemma below_ten: "n < 10 \<Longrightarrow> n \<in> {0, 1, 2, 3, 4, 5, 6, 7, 8, 9::nat}"
  by auto

lemma digit_facts:
  assumes "n < 10"
  shows "digit n \<in> set ''0123456789''" and "digit_value (digit n) = n"
    and "digit n = CHR ''0'' \<longleftrightarrow> n = 0"
  using below_ten [OF assms] by (auto simp: digit_def digit_value_def)

lemma string_of_nat_nonempty: "string_of_nat n \<noteq> []"
  by (subst string_of_nat.simps) simp

lemma string_of_nat_digits: "set (string_of_nat n) \<subseteq> set ''0123456789''"
proof (induction n rule: string_of_nat.induct)
  case (1 n)
  show ?case
  proof (cases "n < 10")
    case True
    then show ?thesis
      using digit_facts(1) [of n] by (subst string_of_nat.simps) simp
  next
    case False
    with 1 digit_facts(1) [of "n mod 10"] show ?thesis
      by (subst string_of_nat.simps) simp
  qed
qed

lemma string_of_nat_no_leading_zero: "n \<noteq> 0 \<Longrightarrow> hd (string_of_nat n) \<noteq> CHR ''0''"
proof (induction n rule: string_of_nat.induct)
  case (1 n)
  show ?case
  proof (cases "n < 10")
    case True
    with 1 show ?thesis
      using digit_facts(3) [of n] by (subst string_of_nat.simps) simp
  next
    case False
    then have "n div 10 \<noteq> 0" by simp
    with 1 False show ?thesis
      by (subst string_of_nat.simps) (simp add: string_of_nat_nonempty)
  qed
qed

lemma nat_of_string_of_nat: "nat_of_string (string_of_nat n) = n"
proof (induction n rule: string_of_nat.induct)
  case (1 n)
  show ?case
  proof (cases "n < 10")
    case True
    then show ?thesis
      using digit_facts(2) [of n] by (subst string_of_nat.simps) (simp add: nat_of_string_def)
  next
    case False
    with 1 have "nat_of_string (string_of_nat (n div 10)) = n div 10" by simp
    with False digit_facts(2) [of "n mod 10"] show ?thesis
      by (subst string_of_nat.simps) (simp add: nat_of_string_def)
  qed
qed


section \<open>The index, by positions\<close>

lemma occ_items_positions:
  assumes "\<forall>item k. item \<in> set items \<longrightarrow>
             g item k = map (\<lambda>(f, segs). (f, recorded_path (pathPrefix path @ string_of_nat k) segs)) (g' item)"
  shows "occ_items g items k = map (\<lambda>(f, segs). (f, recorded_path path segs)) (pos_items g' items k)"
  using assms
proof (induction items arbitrary: k)
  case Nil
  then show ?case by simp
next
  case (Cons item items)
  then show ?case by (simp add: case_prod_unfold)
qed

lemma occ_props_positions:
  assumes "\<forall>key v. v \<in> snd ` set kvs \<longrightarrow>
             g key v = map (\<lambda>(f, segs). (f, recorded_path (pathPrefix path @ key) segs)) (g' v)"
  shows "occ_props g kvs = map (\<lambda>(f, segs). (f, recorded_path path segs)) (pos_props g' kvs)"
  using assms
proof (induction kvs)
  case Nil
  then show ?case by simp
next
  case (Cons kv kvs)
  obtain key v where kv: "kv = (key, v)" by (cases kv)
  from Cons kv show ?case by (simp add: case_prod_unfold)
qed

lemma occurrences_positions:
  "occurrences d isx h v path R =
     map (\<lambda>(f, segs). (f, recorded_path path segs)) (leaf_positions d isx h v R)"
proof (induction d arbitrary: v path R)
  case 0
  then show ?case by simp
next
  case (Suc d)
  have items: "occ_items (\<lambda>item index. occurrences d isx h item (pathPrefix path @ string_of_nat index) R') items 0
      = map (\<lambda>(f, segs). (f, recorded_path path segs))
          (pos_items (\<lambda>item. leaf_positions d isx h item R') items 0)" for items R'
    by (rule occ_items_positions) (simp add: Suc.IH)
  have props: "occ_props (\<lambda>key v. occurrences d isx h v (pathPrefix path @ key) R') kvs
      = map (\<lambda>(f, segs). (f, recorded_path path segs))
          (pos_props (\<lambda>v. leaf_positions d isx h v R') kvs)" for kvs R'
    by (rule occ_props_positions) (simp add: Suc.IH)
  show ?case
    by (simp add: items props split: val.splits option.splits obj.splits)
qed







lemma index_of_positions:
  assumes wf: "closed_heap h" "closed_val h v" and st: "stable_matcher h isx"
    and run: "extractFiles depth h v path isx = Inr (clone, s')"
  shows "files s' =
           addFiles (map (\<lambda>(f, segs). (f, recorded_path path segs))
                       (leaf_positions depth isx h v (Some {}))) []"
proof -
  from wf st run have "files s' = addFiles (occurrences depth isx h v path (Some {})) []"
    unfolding extractFiles_def by (auto dest: recurse_files)
  then show ?thesis
    by (simp add: occurrences_positions)
qed



section \<open>What the clone holds at a position\<close>

lemma distinct_keys_lookup:
  "distinct_keys h \<Longrightarrow> lookup h a = Some (Plain kvs) \<Longrightarrow> distinct (map fst kvs)"
proof -
  assume dk: "distinct_keys h" and ob: "lookup h a = Some (Plain kvs)"
  from ob have "a < length h" "h ! a = Plain kvs"
    by (simp_all add: lookup_def split: if_splits)
  then have "Plain kvs \<in> set h"
    by (metis nth_mem)
  with dk have "case Plain kvs of Plain kvs \<Rightarrow> distinct (map fst kvs) | _ \<Rightarrow> True"
    unfolding distinct_keys_def list_all_iff by blast
  then show ?thesis
    by simp
qed

lemma lookup_push_other: "b \<noteq> c \<Longrightarrow> lookup (push c v h) b = lookup h b"
  by (simp add: push_def lookup_list_update split: option.splits obj.splits)

lemma inherited_slot_setter: "inherited_slot n h p key = ProtoSetter \<Longrightarrow> key = ''__proto__''"
  by (induction n h p key rule: inherited_slot.induct)
     (auto simp: object_prototype_slot_def split: val.splits option.splits obj.splits if_splits)

lemma children_update:
  "c < length h \<Longrightarrow> children (h[c := Plain kvs]) (Ref c) = kvs"
  "c < length h \<Longrightarrow> children (h[c := Derived p kvs]) (Ref c) = kvs"
  by (simp_all add: children_def lookup_list_update)

lemma record_update:
  "c < length h \<Longrightarrow> record_at (h[c := Plain kvs]) c"
  "c < length h \<Longrightarrow> record_at (h[c := Derived p kvs]) c"
  by (simp_all add: record_at_def lookup_list_update)

lemma set_prototype_record:
  assumes "set_prototype c v kvs h = Inr h'" and "record_at h c" and "children h (Ref c) = kvs"
  shows "record_at h' c \<and> children h' (Ref c) = kvs"
proof -
  from assms(2) have "c < length h"
    by (auto simp: record_at_def dest: lookup_Some_less split: option.splits)
  with assms show ?thesis
    by (auto simp: set_prototype_def children_update record_update split: val.splits if_splits)
qed

lemma assign_record:
  assumes w: "assign c key v h = Inr h'" and rec: "record_at h c"
    and fresh: "key \<notin> fst ` set (children h (Ref c))"
  shows "record_at h' c"
    and "set (children h (Ref c)) \<subseteq> set (children h' (Ref c))"
    and "fst ` set (children h' (Ref c)) \<subseteq> insert key (fst ` set (children h (Ref c)))"
    and "key \<noteq> ''__proto__'' \<Longrightarrow> (key, v) \<in> set (children h' (Ref c))"
proof -
  from rec have c: "c < length h"
    by (auto simp: record_at_def dest: lookup_Some_less split: option.splits)
  let ?kvs = "children h (Ref c)"
  have "record_at h' c \<and> (children h' (Ref c) = ?kvs \<and> key = ''__proto__''
          \<or> children h' (Ref c) = ?kvs @ [(key, v)])"
  proof (cases "lookup h c")
    case None
    with rec show ?thesis by (simp add: record_at_def)
  next
    case (Some ob)
    show ?thesis
    proof (cases ob)
      case (Plain kvs)
      with Some have kvs: "?kvs = kvs" by (simp add: children_def)
      show ?thesis
      proof (cases "key = ''__proto__''")
        case True
        with w Some Plain fresh kvs have "set_prototype c v kvs h = Inr h'"
          by (simp add: assign_def store_property_def object_prototype_slot_def)
        from set_prototype_record [OF this rec kvs] kvs True show ?thesis by simp
      next
        case False
        with w Some Plain fresh kvs have "h' = h[c := Plain (kvs @ [(key, v)])]"
          by (simp add: assign_def store_property_def object_prototype_slot_def update_fresh_key)
        with c kvs show ?thesis by (simp add: children_update record_update)
      qed
    next
      case (Derived p kvs)
      with Some have kvs: "?kvs = kvs" by (simp add: children_def)
      from fresh kvs have upd: "AList.update key v kvs = kvs @ [(key, v)]"
        by (simp add: update_fresh_key)
      from w Some Derived fresh kvs
      have sp: "(case inherited_slot (length h) h p key of
                  ReadOnly \<Rightarrow> Inl TypeError
                | ProtoSetter \<Rightarrow> set_prototype c v kvs h
                | _ \<Rightarrow> Inr (h[c := Derived p (AList.update key v kvs)])) = Inr h'"
        by (simp add: assign_def store_property_def)
      show ?thesis
      proof (cases "inherited_slot (length h) h p key")
        case ProtoSetter
        then have "key = ''__proto__''" by (rule inherited_slot_setter)
        moreover from sp ProtoSetter have "set_prototype c v kvs h = Inr h'" by simp
        from set_prototype_record [OF this rec kvs] have "record_at h' c \<and> children h' (Ref c) = kvs" .
        ultimately show ?thesis using kvs by simp
      next
        case ReadOnly
        with sp show ?thesis by simp
      next
        case Absent
        with sp upd have "h' = h[c := Derived p (kvs @ [(key, v)])]" by simp
        with c kvs show ?thesis by (simp add: children_update record_update)
      next
        case Writable
        with sp upd have "h' = h[c := Derived p (kvs @ [(key, v)])]" by simp
        with c kvs show ?thesis by (simp add: children_update record_update)
      qed
    next
      case (Arr items)
      with Some rec show ?thesis by (simp add: record_at_def)
    next
      case (FileList items)
      with Some rec show ?thesis by (simp add: record_at_def)
    next
      case (Inst cls props ro)
      with Some rec show ?thesis by (simp add: record_at_def)
    qed
  qed
  then show "record_at h' c"
    and "set (children h (Ref c)) \<subseteq> set (children h' (Ref c))"
    and "fst ` set (children h' (Ref c)) \<subseteq> insert key (fst ` set (children h (Ref c)))"
    and "key \<noteq> ''__proto__'' \<Longrightarrow> (key, v) \<in> set (children h' (Ref c))"
    by auto
qed

lemma map_loop_keeps:
  assumes fr: "\<forall>item k s r s1. f item k s = Inr (r, s1) \<longrightarrow> prefix (heap s) (heap s1)"
  shows "map_loop f c items k s = Inr s' \<Longrightarrow> b < length (heap s) \<Longrightarrow> b \<noteq> c \<Longrightarrow>
         lookup (heap s') b = lookup (heap s) b"
proof (induction items arbitrary: k s)
  case Nil
  then show ?case by simp
next
  case (Cons item items)
  from Cons.prems(1) obtain r s1 where 1: "f item k s = Inr (r, s1)"
    and 2: "map_loop f c items (Suc k) (s1\<lparr>heap := push c r (heap s1)\<rparr>) = Inr s'"
    by (auto split: sum.splits)
  from fr 1 have ext: "prefix (heap s) (heap s1)" by blast
  with Cons.prems(2) have same: "lookup (heap s1) b = lookup (heap s) b"
    by (simp add: lookup_prefix)
  from ext Cons.prems(2) have "b < length (heap (s1\<lparr>heap := push c r (heap s1)\<rparr>))"
    using prefix_length_le by fastforce
  from Cons.IH [OF 2 this Cons.prems(3)] same Cons.prems(3) show ?case
    by (simp add: lookup_push_other)
qed

lemma for_in_keeps:
  assumes fr: "\<forall>key v s r s1. f key v s = Inr (r, s1) \<longrightarrow> prefix (heap s) (heap s1)"
  shows "for_in f c kvs s = Inr s' \<Longrightarrow> b < length (heap s) \<Longrightarrow> b \<noteq> c \<Longrightarrow>
         lookup (heap s') b = lookup (heap s) b"
proof (induction kvs arbitrary: s)
  case Nil
  then show ?case by simp
next
  case (Cons kv kvs)
  obtain key v where kv: "kv = (key, v)" by (cases kv)
  from Cons.prems(1) kv obtain r s1 h1 where 1: "f key v s = Inr (r, s1)"
    and w: "assign c key r (heap s1) = Inr h1"
    and 2: "for_in f c kvs (s1\<lparr>heap := h1\<rparr>) = Inr s'"
    by (auto split: sum.splits)
  from fr 1 have ext: "prefix (heap s) (heap s1)" by blast
  with Cons.prems(2) have same: "lookup (heap s1) b = lookup (heap s) b"
    by (simp add: lookup_prefix)
  from ext Cons.prems(2) length_assign [OF w] have "b < length (heap (s1\<lparr>heap := h1\<rparr>))"
    using prefix_length_le by fastforce
  from Cons.IH [OF 2 this Cons.prems(3)] same lookup_assign_other [OF w Cons.prems(3)] show ?case
    by simp
qed

lemma child_call_later:
  "child_call h0 s1 s' g r t \<Longrightarrow> length (heap s) \<le> length (heap s1) \<Longrightarrow> child_call h0 s s' g r t"
  by (auto simp: child_call_def)

lemma in_order_Cons:
  assumes "in_order tr"
    and "\<forall>j<length tr. length (heap (snd t)) \<le> length (heap (fst (tr ! j)))"
  shows "in_order (t # tr)"
  unfolding in_order_def
proof (intro allI impI)
  fix i j
  assume ij: "i < j \<and> j < length (t # tr)"
  then obtain j' where j: "j = Suc j'" "j' < length tr" by (cases j) auto
  show "length (heap (snd ((t # tr) ! i))) \<le> length (heap (fst ((t # tr) ! j)))"
  proof (cases i)
    case 0
    with j assms(2) show ?thesis by simp
  next
    case (Suc i')
    with ij j assms(1) show ?thesis by (simp add: in_order_def)
  qed
qed

lemma map_loop_trace:
  assumes fr: "\<forall>item k s r s1. f item k s = Inr (r, s1) \<longrightarrow> prefix (heap s) (heap s1)"
    and c: "length h0 \<le> c"
  shows "map_loop f c items k s = Inr s' \<Longrightarrow> lookup (heap s) c = Some (Arr acc) \<Longrightarrow>
         prefix h0 (heap s) \<Longrightarrow>
         \<exists>rs tr. length rs = length items \<and> length tr = length items
           \<and> lookup (heap s') c = Some (Arr (acc @ rs))
           \<and> (\<forall>i<length items. child_call h0 s s' (f (items ! i) (k + i)) (rs ! i) (tr ! i))
           \<and> in_order tr"
proof (induction items arbitrary: s acc k)
  case Nil
  then show ?case by (simp add: in_order_def)
next
  case (Cons item items)
  from Cons.prems(1) obtain r s1 where 1: "f item k s = Inr (r, s1)"
    and 2: "map_loop f c items (Suc k) (s1\<lparr>heap := push c r (heap s1)\<rparr>) = Inr s'"
    by (auto split: sum.splits)
  let ?s1 = "s1\<lparr>heap := push c r (heap s1)\<rparr>"
  from Cons.prems(2) have cl: "c < length (heap s)" by (rule lookup_Some_less)
  from fr 1 have ext: "prefix (heap s) (heap s1)" by blast
  then have len: "length (heap s) \<le> length (heap s1)" by (rule prefix_length_le)
  from ext cl Cons.prems(2) have "lookup (heap s1) c = Some (Arr acc)"
    by (simp add: lookup_prefix)
  then have 3: "lookup (heap ?s1) c = Some (Arr (acc @ [r]))"
    by (simp add: push_def lookup_list_update lookup_Some_less)
  from Cons.prems(3) ext have "prefix h0 (heap s1)" by (rule prefix_order.trans)
  with c have 4: "prefix h0 (heap ?s1)"
    by (simp add: prefix_push)
  from Cons.IH [OF 2 3 4] obtain rs tr where rs: "length rs = length items" "length tr = length items"
    "lookup (heap s') c = Some (Arr ((acc @ [r]) @ rs))"
    "\<forall>i<length items. child_call h0 ?s1 s' (f (items ! i) (Suc k + i)) (rs ! i) (tr ! i)"
    "in_order tr"
    by blast
  from cl len have "c \<le> length (heap ?s1)" by simp
  from map_loop_frame [OF fr 2 this] have grow: "length (heap s1) \<le> length (heap s')"
    by simp
  have kept: "lookup (heap s') b = lookup (heap s1) b"
    if "length (heap s) \<le> b" "b < length (heap s1)" for b
  proof -
    from that cl have "b \<noteq> c" "b < length (heap ?s1)" by simp_all
    from map_loop_keeps [OF fr 2 this(2,1)] \<open>b \<noteq> c\<close> show ?thesis
      by (simp add: lookup_push_other)
  qed
  from 1 Cons.prems(3) grow kept have first: "child_call h0 s s' (f item k) r (s, s1)"
    by (simp add: child_call_def)
  have each: "child_call h0 s s' (f ((item # items) ! i) (k + i)) ((r # rs) ! i) (((s, s1) # tr) ! i)"
    if "i < length (item # items)" for i
  proof (cases i)
    case 0
    with first show ?thesis by simp
  next
    case (Suc j)
    with that rs(4) have "child_call h0 ?s1 s' (f (items ! j) (Suc k + j)) (rs ! j) (tr ! j)"
      by simp
    from child_call_later [OF this, of s] len Suc show ?thesis
      by simp
  qed
  have "\<forall>j<length tr. length (heap (snd (s, s1))) \<le> length (heap (fst (tr ! j)))"
    using rs(2,4) by (auto simp: child_call_def)
  with rs(5) have "in_order ((s, s1) # tr)"
    by (rule in_order_Cons)
  with rs(1,2,3) each have "length (r # rs) = length (item # items)
      \<and> length ((s, s1) # tr) = length (item # items)
      \<and> lookup (heap s') c = Some (Arr (acc @ (r # rs)))
      \<and> (\<forall>i<length (item # items).
            child_call h0 s s' (f ((item # items) ! i) (k + i)) ((r # rs) ! i) (((s, s1) # tr) ! i))
      \<and> in_order ((s, s1) # tr)"
    by simp
  then show ?case by blast
qed

lemma children_same: "lookup H c = lookup H' c \<Longrightarrow> children H (Ref c) = children H' (Ref c)"
  by (simp add: children_def)

lemma record_same: "lookup H c = lookup H' c \<Longrightarrow> record_at H c = record_at H' c"
  by (simp add: record_at_def)

lemma for_in_trace:
  assumes fr: "\<forall>key v s r s1. f key v s = Inr (r, s1) \<longrightarrow> prefix (heap s) (heap s1)"
    and c: "length h0 \<le> c"
  shows "for_in f c kvs s = Inr s' \<Longrightarrow> record_at (heap s) c \<Longrightarrow> prefix h0 (heap s) \<Longrightarrow>
         distinct (map fst kvs) \<Longrightarrow> fst ` set kvs \<inter> fst ` set (children (heap s) (Ref c)) = {} \<Longrightarrow>
         \<exists>rs tr. length rs = length kvs \<and> length tr = length kvs
           \<and> record_at (heap s') c
           \<and> set (children (heap s) (Ref c)) \<subseteq> set (children (heap s') (Ref c))
           \<and> (\<forall>i<length kvs.
                 child_call h0 s s' (f (fst (kvs ! i)) (snd (kvs ! i))) (rs ! i) (tr ! i)
                 \<and> (fst (kvs ! i) \<noteq> ''__proto__''
                      \<longrightarrow> (fst (kvs ! i), rs ! i) \<in> set (children (heap s') (Ref c))))
           \<and> in_order tr"
proof (induction kvs arbitrary: s)
  case Nil
  then show ?case by (simp add: in_order_def)
next
  case (Cons kv kvs)
  obtain key v where kv: "kv = (key, v)" by (cases kv)
  from Cons.prems(1) kv obtain r s1 h1 where 1: "f key v s = Inr (r, s1)"
    and w: "assign c key r (heap s1) = Inr h1"
    and 2: "for_in f c kvs (s1\<lparr>heap := h1\<rparr>) = Inr s'"
    by (auto split: sum.splits)
  let ?s1 = "s1\<lparr>heap := h1\<rparr>"
  from Cons.prems(2) have cl: "c < length (heap s)"
    by (auto simp: record_at_def dest: lookup_Some_less split: option.splits)
  from fr 1 have ext: "prefix (heap s) (heap s1)" by blast
  then have len: "length (heap s) \<le> length (heap s1)" by (rule prefix_length_le)
  from ext cl have same: "lookup (heap s1) c = lookup (heap s) c"
    by (simp add: lookup_prefix)
  from record_same [OF same] Cons.prems(2) have rec1: "record_at (heap s1) c"
    by simp
  from same have ch1: "children (heap s1) (Ref c) = children (heap s) (Ref c)"
    by (rule children_same)
  from Cons.prems(5) kv ch1 have fresh: "key \<notin> fst ` set (children (heap s1) (Ref c))"
    by auto
  note asg = assign_record [OF w rec1 fresh]
  from asg(1) have 3: "record_at (heap ?s1) c" by simp
  from Cons.prems(3) ext have "prefix h0 (heap s1)" by (rule prefix_order.trans)
  with w c have 4: "prefix h0 (heap ?s1)"
    by (simp add: prefix_assign)
  from Cons.prems(4) kv have 5: "distinct (map fst kvs)" and knew: "key \<notin> fst ` set kvs"
    by auto
  from Cons.prems(5) have "fst ` set kvs \<inter> fst ` set (children (heap s) (Ref c)) = {}"
    by auto
  moreover from asg(3) ch1
  have "fst ` set (children (heap ?s1) (Ref c)) \<subseteq> insert key (fst ` set (children (heap s) (Ref c)))"
    by simp
  ultimately have 6: "fst ` set kvs \<inter> fst ` set (children (heap ?s1) (Ref c)) = {}"
    using knew by blast
  from Cons.IH [OF 2 3 4 5 6] obtain rs tr where rs: "length rs = length kvs" "length tr = length kvs"
    "record_at (heap s') c"
    "set (children (heap ?s1) (Ref c)) \<subseteq> set (children (heap s') (Ref c))"
    "\<forall>i<length kvs.
        child_call h0 ?s1 s' (f (fst (kvs ! i)) (snd (kvs ! i))) (rs ! i) (tr ! i)
        \<and> (fst (kvs ! i) \<noteq> ''__proto__''
             \<longrightarrow> (fst (kvs ! i), rs ! i) \<in> set (children (heap s') (Ref c)))"
    "in_order tr"
    by blast
  have len1: "length (heap ?s1) = length (heap s1)"
    using length_assign [OF w] by simp
  from cl len len1 have "c \<le> length (heap ?s1)" by simp
  from for_in_frame [OF fr 2 this] len1 have grow: "length (heap s1) \<le> length (heap s')"
    by simp
  have kept: "lookup (heap s') b = lookup (heap s1) b"
    if "length (heap s) \<le> b" "b < length (heap s1)" for b
  proof -
    from that cl len1 have "b \<noteq> c" "b < length (heap ?s1)" by simp_all
    from for_in_keeps [OF fr 2 this(2,1)] lookup_assign_other [OF w \<open>b \<noteq> c\<close>] show ?thesis
      by simp
  qed
  from 1 Cons.prems(3) grow kept have first: "child_call h0 s s' (f key v) r (s, s1)"
    by (simp add: child_call_def)
  from asg(4) rs(4) have held: "key \<noteq> ''__proto__'' \<longrightarrow> (key, r) \<in> set (children (heap s') (Ref c))"
    by auto
  have each: "child_call h0 s s' (f (fst ((kv # kvs) ! i)) (snd ((kv # kvs) ! i))) ((r # rs) ! i)
                (((s, s1) # tr) ! i)
              \<and> (fst ((kv # kvs) ! i) \<noteq> ''__proto__''
                   \<longrightarrow> (fst ((kv # kvs) ! i), (r # rs) ! i) \<in> set (children (heap s') (Ref c)))"
    if "i < length (kv # kvs)" for i
  proof (cases i)
    case 0
    with first held kv show ?thesis by simp
  next
    case (Suc j)
    with that rs(5) have j: "child_call h0 ?s1 s' (f (fst (kvs ! j)) (snd (kvs ! j))) (rs ! j) (tr ! j)"
      "fst (kvs ! j) \<noteq> ''__proto__'' \<longrightarrow> (fst (kvs ! j), rs ! j) \<in> set (children (heap s') (Ref c))"
      by simp_all
    from child_call_later [OF j(1), of s] len len1 j(2) Suc show ?thesis
      by simp
  qed
  have "\<forall>j<length tr. length (heap (snd (s, s1))) \<le> length (heap (fst (tr ! j)))"
    using rs(2,5) len1 by (auto simp: child_call_def)
  with rs(6) have ord: "in_order ((s, s1) # tr)"
    by (rule in_order_Cons)
  from asg(2) ch1 rs(4) have sub: "set (children (heap s) (Ref c)) \<subseteq> set (children (heap s') (Ref c))"
    by auto
  from rs(1,2,3) sub each ord have "length (r # rs) = length (kv # kvs)
      \<and> length ((s, s1) # tr) = length (kv # kvs)
      \<and> record_at (heap s') c
      \<and> set (children (heap s) (Ref c)) \<subseteq> set (children (heap s') (Ref c))
      \<and> (\<forall>i<length (kv # kvs).
            child_call h0 s s' (f (fst ((kv # kvs) ! i)) (snd ((kv # kvs) ! i))) ((r # rs) ! i)
              (((s, s1) # tr) ! i)
            \<and> (fst ((kv # kvs) ! i) \<noteq> ''__proto__''
                 \<longrightarrow> (fst ((kv # kvs) ! i), (r # rs) ! i) \<in> set (children (heap s') (Ref c))))
      \<and> in_order ((s, s1) # tr)"
    by simp
  then show ?case by blast
qed

lemma same_kind_same: "lookup H c = lookup H' c \<Longrightarrow> same_kind h a H c = same_kind h a H' c"
  by (cases "lookup h a") (auto simp: same_kind_def record_at_def split: obj.splits)

lemma children_closed:
  assumes "closed_heap h" and "(seg, u) \<in> set (children h (Ref b))"
  shows "closed_val h u"
proof (cases "lookup h b")
  case None
  with assms(2) show ?thesis by (simp add: children_def)
next
  case (Some ob)
  from assms(2) Some have "u \<in> set (obj_vals ob)"
    by (cases ob) (force simp: children_def dest: set_zip_rightD)+
  with assms(1) Some show ?thesis
    by (rule closed_heap_lookup)
qed

lemma cloned_at_container:
  "cloned_at isx h V v segs a \<Longrightarrow>
   \<exists>b. v = Ref b \<and> \<not> isx h v \<and> b \<notin> V \<and> (segs = [] \<longrightarrow> b = a)
     \<and> ((\<exists>items. lookup h b = Some (Arr items)) \<or> (\<exists>kvs. lookup h b = Some (Plain kvs)))"
  by (cases segs; cases v) (auto split: option.splits obj.splits)

lemma cloned_at_child:
  assumes "cloned_at isx h V (Ref b) (seg # t) a"
  shows "\<exists>i<length (children h (Ref b)).
           fst (children h (Ref b) ! i) = seg
           \<and> cloned_at isx h (insert b V) (snd (children h (Ref b) ! i)) t a"
proof -
  from assms have "list_ex (\<lambda>(key, u). key = seg \<and> cloned_at isx h (insert b V) u t a)
      (children h (Ref b))"
    by (auto split: option.splits obj.splits)
  then obtain key u where "(key, u) \<in> set (children h (Ref b))" "key = seg"
    "cloned_at isx h (insert b V) u t a"
    by (auto simp: list_ex_iff)
  then show ?thesis
    by (auto simp: in_set_conv_nth)
qed

lemma container_calls:
  assumes dk: "distinct_keys h0"
    and run: "recurse (Suc d) isx (Ref b) path (Some V) s = Inr (r, s')"
    and ext: "prefix h0 (heap s)"
    and ob: "(\<exists>items. lookup h0 b = Some (Arr items)) \<or> (\<exists>kvs. lookup h0 b = Some (Plain kvs))"
    and nx: "\<not> isx (heap s) (Ref b)" and new: "b \<notin> V"
  shows "r = Ref (length (heap s)) \<and> length (heap s) < length (heap s')
       \<and> same_kind h0 b (heap s') (length (heap s))
       \<and> (\<exists>rs tr. length rs = length (children h0 (Ref b))
             \<and> length tr = length (children h0 (Ref b))
             \<and> (\<forall>i<length (children h0 (Ref b)).
                   child_call h0 s s'
                     (recurse d isx (snd (children h0 (Ref b) ! i))
                        (pathPrefix path @ fst (children h0 (Ref b) ! i)) (Some (insert b V)))
                     (rs ! i) (tr ! i)
                   \<and> length (heap s) < length (heap (fst (tr ! i)))
                   \<and> (fst (children h0 (Ref b) ! i) \<noteq> ''__proto__''
                        \<longrightarrow> (fst (children h0 (Ref b) ! i), rs ! i)
                              \<in> set (children (heap s') (Ref (length (heap s))))))
             \<and> in_order tr)"
proof -
  let ?n = "length (heap s)"
  from ob have bl: "b < length h0" by (auto dest: lookup_Some_less)
  with ext have same: "lookup (heap s) b = lookup h0 b" by (rule lookup_prefix)
  from ext have len: "length h0 \<le> ?n" by (rule prefix_length_le)
  from ob show ?thesis
  proof (elim disjE exE)
    fix items
    assume arr: "lookup h0 b = Some (Arr items)"
    let ?f = "\<lambda>item k. recurse d isx item (pathPrefix path @ string_of_nat k) (Some (insert b V))"
    let ?s0 = "s\<lparr>heap := heap s @ [Arr []]\<rparr>"
    from arr same nx new run have r: "r = Ref ?n"
      and loop: "map_loop ?f ?n items 0 ?s0 = Inr s'"
      by (simp_all add: recurse_array array_map_Inr del: recurse.simps)
    have fr: "\<forall>item k s r s1. ?f item k s = Inr (r, s1) \<longrightarrow> prefix (heap s) (heap s1)"
      by (blast dest: recurse_frame)
    have l0: "lookup (heap ?s0) ?n = Some (Arr [])"
      by (simp add: lookup_def)
    have p0: "prefix h0 (heap ?s0)"
      using ext by (auto simp: prefix_def)
    from map_loop_trace [where f = ?f, OF fr len loop l0 p0] obtain rs tr where
      rs: "length rs = length items" "length tr = length items"
        "lookup (heap s') ?n = Some (Arr rs)"
        "\<forall>i<length items. child_call h0 ?s0 s' (?f (items ! i) (0 + i)) (rs ! i) (tr ! i)"
        "in_order tr"
      by auto
    have kids: "children h0 (Ref b) = zip (map string_of_nat [0..<length items]) items"
      using arr by (simp add: children_def)
    have grow: "?n < length (heap s')"
      using rs(3) by (rule lookup_Some_less)
    have kind: "same_kind h0 b (heap s') ?n"
      using arr rs(1,3) by (simp add: same_kind_def)
    have each: "child_call h0 s s'
                  (recurse d isx (snd (children h0 (Ref b) ! i))
                     (pathPrefix path @ fst (children h0 (Ref b) ! i)) (Some (insert b V)))
                  (rs ! i) (tr ! i)
                \<and> ?n < length (heap (fst (tr ! i)))
                \<and> (fst (children h0 (Ref b) ! i) \<noteq> ''__proto__''
                     \<longrightarrow> (fst (children h0 (Ref b) ! i), rs ! i) \<in> set (children (heap s') (Ref ?n)))"
      if "i < length (children h0 (Ref b))" for i
    proof -
      from that kids have i: "i < length items" by simp
      with kids have ki: "children h0 (Ref b) ! i = (string_of_nat i, items ! i)" by simp
      from rs(4) i have cc: "child_call h0 ?s0 s' (?f (items ! i) i) (rs ! i) (tr ! i)" by simp
      then have "Suc ?n \<le> length (heap (fst (tr ! i)))"
        by (simp add: child_call_def)
      moreover from child_call_later [OF cc, of s] have "child_call h0 s s' (?f (items ! i) i) (rs ! i) (tr ! i)"
        by simp
      moreover from i rs(1) have "(string_of_nat i, rs ! i) \<in> set (zip (map string_of_nat [0..<length rs]) rs)"
        by (intro index_child) simp
      with rs(3) have "(string_of_nat i, rs ! i) \<in> set (children (heap s') (Ref ?n))"
        by (simp add: children_def)
      ultimately show ?thesis
        using ki by simp
    qed
    from r grow kind rs(1,2,5) kids each show ?thesis
      by auto
  next
    fix kvs
    assume plain: "lookup h0 b = Some (Plain kvs)"
    let ?f = "\<lambda>key v. recurse d isx v (pathPrefix path @ key) (Some (insert b V))"
    let ?s0 = "s\<lparr>heap := heap s @ [Plain []]\<rparr>"
    from plain same nx new run have r: "r = Ref ?n"
      and loop: "for_in ?f ?n kvs ?s0 = Inr s'"
      by (auto simp: recurse_plain simp del: recurse.simps split: sum.splits)
    have fr: "\<forall>key v s r s1. ?f key v s = Inr (r, s1) \<longrightarrow> prefix (heap s) (heap s1)"
      by (blast dest: recurse_frame)
    have l0: "record_at (heap ?s0) ?n" and c0: "children (heap ?s0) (Ref ?n) = []"
      by (simp_all add: record_at_def children_def lookup_def)
    have p0: "prefix h0 (heap ?s0)"
      using ext by (auto simp: prefix_def)
    from dk plain have d0: "distinct (map fst kvs)"
      by (rule distinct_keys_lookup)
    from c0 have e0: "fst ` set kvs \<inter> fst ` set (children (heap ?s0) (Ref ?n)) = {}"
      by simp
    from for_in_trace [where f = ?f, OF fr len loop l0 p0 d0 e0] obtain rs tr where
      rs: "length rs = length kvs" "length tr = length kvs"
        "record_at (heap s') ?n"
        "\<forall>i<length kvs.
           child_call h0 ?s0 s' (?f (fst (kvs ! i)) (snd (kvs ! i))) (rs ! i) (tr ! i)
           \<and> (fst (kvs ! i) \<noteq> ''__proto__''
                \<longrightarrow> (fst (kvs ! i), rs ! i) \<in> set (children (heap s') (Ref ?n)))"
        "in_order tr"
      by auto
    have kids: "children h0 (Ref b) = kvs"
      using plain by (simp add: children_def)
    have grow: "?n < length (heap s')"
      using rs(3) by (auto simp: record_at_def dest: lookup_Some_less split: option.splits)
    have kind: "same_kind h0 b (heap s') ?n"
      using plain rs(3) by (simp add: same_kind_def)
    have each: "child_call h0 s s' (?f (fst (kvs ! i)) (snd (kvs ! i))) (rs ! i) (tr ! i)
                \<and> ?n < length (heap (fst (tr ! i)))
                \<and> (fst (kvs ! i) \<noteq> ''__proto__''
                     \<longrightarrow> (fst (kvs ! i), rs ! i) \<in> set (children (heap s') (Ref ?n)))"
      if "i < length kvs" for i
    proof -
      from rs(4) that have cc: "child_call h0 ?s0 s' (?f (fst (kvs ! i)) (snd (kvs ! i))) (rs ! i) (tr ! i)"
        and held: "fst (kvs ! i) \<noteq> ''__proto__''
                \<longrightarrow> (fst (kvs ! i), rs ! i) \<in> set (children (heap s') (Ref ?n))"
        by simp_all
      from cc have "Suc ?n \<le> length (heap (fst (tr ! i)))"
        by (simp add: child_call_def)
      moreover from child_call_later [OF cc, of s]
      have "child_call h0 s s' (?f (fst (kvs ! i)) (snd (kvs ! i))) (rs ! i) (tr ! i)"
        by simp
      ultimately show ?thesis
        using held by simp
    qed
    from r grow kind rs(1,2,5) kids each show ?thesis
      by auto
  qed
qed

lemma root_held:
  "length (heap s) < length (heap s') \<Longrightarrow> clone_held s s' (Ref (length (heap s))) [] (length (heap s))"
  by (simp add: clone_held_def)

lemma child_held:
  assumes cc: "child_call h0 s s' g ri t"
    and inner: "length (heap s) < length (heap (fst t))"
    and held: "(seg, ri) \<in> set (children (heap s') (Ref (length (heap s))))"
    and ch: "clone_held (fst t) (snd t) ri segs c"
    and kind: "same_kind h a (heap (snd t)) c"
  shows "clone_held s s' (Ref (length (heap s))) (seg # segs) c \<and> same_kind h a (heap s') c"
proof -
  let ?n = "length (heap s)"
  from cc have le: "length (heap (snd t)) \<le> length (heap s')"
    and agree: "\<forall>b. length (heap (fst t)) \<le> b \<and> b < length (heap (snd t))
                  \<longrightarrow> lookup (heap s') b = lookup (heap (snd t)) b"
    by (simp_all add: child_call_def)
  from ch have lo: "length (heap (fst t)) \<le> c" and hi: "c < length (heap (snd t))"
    and walk: "\<forall>H. (\<forall>b. length (heap (fst t)) \<le> b \<and> b < length (heap (snd t))
                        \<longrightarrow> lookup H b = lookup (heap (snd t)) b)
                 \<longrightarrow> Ref c \<in> set (resolve H ri segs)"
    by (simp_all add: clone_held_def)
  from inner lo hi le have bounds: "?n < c" "c < length (heap s')" by simp_all
  have "Ref c \<in> set (resolve H (Ref ?n) (seg # segs))"
    if H: "\<forall>b. ?n \<le> b \<and> b < length (heap s') \<longrightarrow> lookup H b = lookup (heap s') b" for H
  proof -
    from H bounds have "lookup H ?n = lookup (heap s') ?n" by simp
    then have "children H (Ref ?n) = children (heap s') (Ref ?n)" by (rule children_same)
    with held have 1: "(seg, ri) \<in> set (children H (Ref ?n))" by simp
    have "\<forall>b. length (heap (fst t)) \<le> b \<and> b < length (heap (snd t))
            \<longrightarrow> lookup H b = lookup (heap (snd t)) b"
      using H agree inner le by auto
    with walk have "Ref c \<in> set (resolve H ri segs)" by blast
    with 1 show ?thesis by (rule resolve_child)
  qed
  moreover from agree lo hi have "lookup (heap s') c = lookup (heap (snd t)) c" by simp
  from same_kind_same [OF this, of h a] kind have "same_kind h a (heap s') c" by simp
  ultimately show ?thesis
    using bounds by (simp add: clone_held_def)
qed

lemma clone_at_position:
  assumes wf: "closed_heap h0" and dk: "distinct_keys h0" and st: "stable_matcher h0 isx"
  shows "recurse d isx v path (Some V) s = Inr (r, s') \<Longrightarrow> prefix h0 (heap s) \<Longrightarrow> closed_val h0 v \<Longrightarrow>
         cloned_at isx h0 V v segs a \<Longrightarrow> ''__proto__'' \<notin> set segs \<Longrightarrow>
         \<exists>c. clone_held s s' r segs c \<and> same_kind h0 a (heap s') c"
proof (induction d arbitrary: v path V s r s' segs)
  case 0
  then show ?case by simp
next
  case (Suc d)
  from cloned_at_container [OF Suc.prems(4)] obtain b where b: "v = Ref b" "\<not> isx h0 v" "b \<notin> V"
    "segs = [] \<longrightarrow> b = a"
    and ob: "(\<exists>items. lookup h0 b = Some (Arr items)) \<or> (\<exists>kvs. lookup h0 b = Some (Plain kvs))"
    by blast
  from st Suc.prems(2,3) have "isx (heap s) v = isx h0 v" by (rule stable_matcherD)
  with b have nx: "\<not> isx (heap s) (Ref b)" by simp
  let ?kids = "children h0 (Ref b)"
  from Suc.prems(1) b(1) have run: "recurse (Suc d) isx (Ref b) path (Some V) s = Inr (r, s')"
    by simp
  from container_calls [OF dk run Suc.prems(2) ob nx b(3)] obtain rs tr where
    r: "r = Ref (length (heap s))" and grow: "length (heap s) < length (heap s')"
    and kind: "same_kind h0 b (heap s') (length (heap s))"
    and calls: "\<forall>i<length ?kids.
                   child_call h0 s s'
                     (recurse d isx (snd (?kids ! i)) (pathPrefix path @ fst (?kids ! i)) (Some (insert b V)))
                     (rs ! i) (tr ! i)
                   \<and> length (heap s) < length (heap (fst (tr ! i)))
                   \<and> (fst (?kids ! i) \<noteq> ''__proto__''
                        \<longrightarrow> (fst (?kids ! i), rs ! i) \<in> set (children (heap s') (Ref (length (heap s)))))"
    by blast
  show ?case
  proof (cases segs)
    case Nil
    with b(4) r grow kind root_held [OF grow] show ?thesis by auto
  next
    case (Cons seg t)
    from Suc.prems(4) b(1) Cons have "cloned_at isx h0 V (Ref b) (seg # t) a" by simp
    from cloned_at_child [OF this] obtain i where i: "i < length ?kids" "fst (?kids ! i) = seg"
      "cloned_at isx h0 (insert b V) (snd (?kids ! i)) t a"
      by blast
    from Suc.prems(5) Cons have seg: "seg \<noteq> ''__proto__''" and t: "''__proto__'' \<notin> set t"
      by auto
    from calls i(1,2) seg have cc: "child_call h0 s s'
          (recurse d isx (snd (?kids ! i)) (pathPrefix path @ seg) (Some (insert b V))) (rs ! i) (tr ! i)"
      and inner: "length (heap s) < length (heap (fst (tr ! i)))"
      and held: "(seg, rs ! i) \<in> set (children (heap s') (Ref (length (heap s))))"
      by auto
    from cc have sub: "recurse d isx (snd (?kids ! i)) (pathPrefix path @ seg) (Some (insert b V))
          (fst (tr ! i)) = Inr (rs ! i, snd (tr ! i))"
      and pre: "prefix h0 (heap (fst (tr ! i)))"
      by (simp_all add: child_call_def)
    from i(1) have "(fst (?kids ! i), snd (?kids ! i)) \<in> set ?kids" by simp
    with wf have closed: "closed_val h0 (snd (?kids ! i))" by (rule children_closed)
    from Suc.IH [OF sub pre closed i(3) t] obtain c where
      "clone_held (fst (tr ! i)) (snd (tr ! i)) (rs ! i) t c" "same_kind h0 a (heap (snd (tr ! i))) c"
      by blast
    from child_held [OF cc inner held this] r Cons show ?thesis by blast
  qed
qed

lemma clones_distinct:
  assumes wf: "closed_heap h0" and dk: "distinct_keys h0" and st: "stable_matcher h0 isx"
  shows "recurse d isx v path (Some V) s = Inr (r, s') \<Longrightarrow> prefix h0 (heap s) \<Longrightarrow> closed_val h0 v \<Longrightarrow>
         cloned_at isx h0 V v segs1 a1 \<Longrightarrow> cloned_at isx h0 V v segs2 a2 \<Longrightarrow> segs1 \<noteq> segs2 \<Longrightarrow>
         ''__proto__'' \<notin> set segs1 \<Longrightarrow> ''__proto__'' \<notin> set segs2 \<Longrightarrow>
         \<exists>c1 c2. c1 \<noteq> c2
           \<and> clone_held s s' r segs1 c1 \<and> same_kind h0 a1 (heap s') c1
           \<and> clone_held s s' r segs2 c2 \<and> same_kind h0 a2 (heap s') c2"
proof (induction d arbitrary: v path V s r s' segs1 segs2)
  case 0
  then show ?case by simp
next
  case (Suc d)
  note single = clone_at_position [OF wf dk st]
  from cloned_at_container [OF Suc.prems(4)] obtain b where b: "v = Ref b" "\<not> isx h0 v" "b \<notin> V"
    and ob: "(\<exists>items. lookup h0 b = Some (Arr items)) \<or> (\<exists>kvs. lookup h0 b = Some (Plain kvs))"
    by blast
  from st Suc.prems(2,3) have "isx (heap s) v = isx h0 v" by (rule stable_matcherD)
  with b have nx: "\<not> isx (heap s) (Ref b)" by simp
  let ?kids = "children h0 (Ref b)"
  let ?n = "length (heap s)"
  from Suc.prems(1) b(1) have run: "recurse (Suc d) isx (Ref b) path (Some V) s = Inr (r, s')"
    by simp
  from container_calls [OF dk run Suc.prems(2) ob nx b(3)] obtain rs tr where
    r: "r = Ref ?n" and grow: "?n < length (heap s')"
    and ltr: "length tr = length ?kids"
    and calls: "\<forall>i<length ?kids.
                   child_call h0 s s'
                     (recurse d isx (snd (?kids ! i)) (pathPrefix path @ fst (?kids ! i)) (Some (insert b V)))
                     (rs ! i) (tr ! i)
                   \<and> ?n < length (heap (fst (tr ! i)))
                   \<and> (fst (?kids ! i) \<noteq> ''__proto__''
                        \<longrightarrow> (fst (?kids ! i), rs ! i) \<in> set (children (heap s') (Ref ?n)))"
    and ord: "in_order tr"
    by blast
  have whole: "\<exists>c. clone_held s s' r segs c \<and> same_kind h0 a (heap s') c"
    if "cloned_at isx h0 V v segs a" "''__proto__'' \<notin> set segs" for segs a
    using single [OF Suc.prems(1,2,3) that] .
  have child: "\<exists>seg t i. segs = seg # t \<and> i < length ?kids \<and> fst (?kids ! i) = seg
        \<and> cloned_at isx h0 (insert b V) (snd (?kids ! i)) t a
        \<and> ''__proto__'' \<notin> set t
        \<and> child_call h0 s s'
             (recurse d isx (snd (?kids ! i)) (pathPrefix path @ seg) (Some (insert b V)))
             (rs ! i) (tr ! i)
        \<and> ?n < length (heap (fst (tr ! i)))
        \<and> (seg, rs ! i) \<in> set (children (heap s') (Ref ?n))
        \<and> recurse d isx (snd (?kids ! i)) (pathPrefix path @ seg) (Some (insert b V)) (fst (tr ! i))
            = Inr (rs ! i, snd (tr ! i))
        \<and> prefix h0 (heap (fst (tr ! i)))
        \<and> closed_val h0 (snd (?kids ! i))"
    if at: "cloned_at isx h0 V v segs a" and np: "''__proto__'' \<notin> set segs" and ne: "segs \<noteq> []"
    for segs a
  proof -
    from ne obtain seg t where segs: "segs = seg # t" by (cases segs) auto
    from at b(1) segs have "cloned_at isx h0 V (Ref b) (seg # t) a" by simp
    from cloned_at_child [OF this] obtain i where i: "i < length ?kids" "fst (?kids ! i) = seg"
      "cloned_at isx h0 (insert b V) (snd (?kids ! i)) t a"
      by blast
    from np segs have seg: "seg \<noteq> ''__proto__''" and t: "''__proto__'' \<notin> set t"
      by auto
    from calls i(1,2) seg have cc: "child_call h0 s s'
          (recurse d isx (snd (?kids ! i)) (pathPrefix path @ seg) (Some (insert b V))) (rs ! i) (tr ! i)"
      and inner: "?n < length (heap (fst (tr ! i)))"
      and held: "(seg, rs ! i) \<in> set (children (heap s') (Ref ?n))"
      by auto
    from cc have sub: "recurse d isx (snd (?kids ! i)) (pathPrefix path @ seg) (Some (insert b V))
          (fst (tr ! i)) = Inr (rs ! i, snd (tr ! i))"
      and pre: "prefix h0 (heap (fst (tr ! i)))"
      by (simp_all add: child_call_def)
    from i(1) have "(fst (?kids ! i), snd (?kids ! i)) \<in> set ?kids" by simp
    with wf have "closed_val h0 (snd (?kids ! i))" by (rule children_closed)
    with segs i t cc inner held sub pre show ?thesis by blast
  qed
  show ?case
  proof (cases "segs1 = [] \<or> segs2 = []")
    case True
    from whole [OF Suc.prems(4,7)] obtain c1 where c1: "clone_held s s' r segs1 c1"
      "same_kind h0 a1 (heap s') c1" by blast
    from whole [OF Suc.prems(5,8)] obtain c2 where c2: "clone_held s s' r segs2 c2"
      "same_kind h0 a2 (heap s') c2" by blast
    have root: "c = ?n" if "clone_held s s' r [] c" for c
    proof -
      from that r have "Ref c \<in> set (resolve (heap s') (Ref ?n) [])"
        unfolding clone_held_def by blast
      then show ?thesis by simp
    qed
    have inside: "?n < c" if "clone_held s s' r segs c" "segs \<noteq> []" for segs c
      using that by (simp add: clone_held_def)
    from True Suc.prems(6) have "(segs1 = [] \<and> segs2 \<noteq> []) \<or> (segs1 \<noteq> [] \<and> segs2 = [])"
      by auto
    then have "c1 \<noteq> c2"
    proof
      assume "segs1 = [] \<and> segs2 \<noteq> []"
      with c1(1) c2(1) root [of c1] inside [of segs2 c2] show ?thesis by auto
    next
      assume "segs1 \<noteq> [] \<and> segs2 = []"
      with c1(1) c2(1) root [of c2] inside [of segs1 c1] show ?thesis by auto
    qed
    with c1 c2 show ?thesis by blast
  next
    case False
    then have ne: "segs1 \<noteq> []" "segs2 \<noteq> []" by simp_all
    from child [OF Suc.prems(4,7) ne(1)] obtain seg1 t1 i1 where 1: "segs1 = seg1 # t1"
      "i1 < length ?kids" "fst (?kids ! i1) = seg1"
      "cloned_at isx h0 (insert b V) (snd (?kids ! i1)) t1 a1" "''__proto__'' \<notin> set t1"
      "child_call h0 s s'
         (recurse d isx (snd (?kids ! i1)) (pathPrefix path @ seg1) (Some (insert b V)))
         (rs ! i1) (tr ! i1)"
      "?n < length (heap (fst (tr ! i1)))"
      "(seg1, rs ! i1) \<in> set (children (heap s') (Ref ?n))"
      "recurse d isx (snd (?kids ! i1)) (pathPrefix path @ seg1) (Some (insert b V)) (fst (tr ! i1))
         = Inr (rs ! i1, snd (tr ! i1))"
      "prefix h0 (heap (fst (tr ! i1)))" "closed_val h0 (snd (?kids ! i1))"
      by blast
    from child [OF Suc.prems(5,8) ne(2)] obtain seg2 t2 i2 where 2: "segs2 = seg2 # t2"
      "i2 < length ?kids" "fst (?kids ! i2) = seg2"
      "cloned_at isx h0 (insert b V) (snd (?kids ! i2)) t2 a2" "''__proto__'' \<notin> set t2"
      "child_call h0 s s'
         (recurse d isx (snd (?kids ! i2)) (pathPrefix path @ seg2) (Some (insert b V)))
         (rs ! i2) (tr ! i2)"
      "?n < length (heap (fst (tr ! i2)))"
      "(seg2, rs ! i2) \<in> set (children (heap s') (Ref ?n))"
      "recurse d isx (snd (?kids ! i2)) (pathPrefix path @ seg2) (Some (insert b V)) (fst (tr ! i2))
         = Inr (rs ! i2, snd (tr ! i2))"
      "prefix h0 (heap (fst (tr ! i2)))" "closed_val h0 (snd (?kids ! i2))"
      by blast
    have "\<exists>c1 c2. c1 \<noteq> c2
        \<and> clone_held (fst (tr ! i1)) (snd (tr ! i1)) (rs ! i1) t1 c1
        \<and> same_kind h0 a1 (heap (snd (tr ! i1))) c1
        \<and> clone_held (fst (tr ! i2)) (snd (tr ! i2)) (rs ! i2) t2 c2
        \<and> same_kind h0 a2 (heap (snd (tr ! i2))) c2"
    proof (cases "i1 = i2")
      case True
      with 1(1,3) 2(1,3) Suc.prems(6) have "t1 \<noteq> t2" by auto
      from Suc.IH [OF 1(9,10,11,4) _ this 1(5) 2(5)] 2(4) 1(3) 2(3) True show ?thesis
        by simp
    next
      case False
      from single [OF 1(9,10,11,4,5)] obtain c1 where c1:
        "clone_held (fst (tr ! i1)) (snd (tr ! i1)) (rs ! i1) t1 c1"
        "same_kind h0 a1 (heap (snd (tr ! i1))) c1"
        by blast
      from single [OF 2(9,10,11,4,5)] obtain c2 where c2:
        "clone_held (fst (tr ! i2)) (snd (tr ! i2)) (rs ! i2) t2 c2"
        "same_kind h0 a2 (heap (snd (tr ! i2))) c2"
        by blast
      from False have "i1 < i2 \<or> i2 < i1" by auto
      with ord ltr 1(2) 2(2) have
        "length (heap (snd (tr ! i1))) \<le> length (heap (fst (tr ! i2)))
         \<or> length (heap (snd (tr ! i2))) \<le> length (heap (fst (tr ! i1)))"
        by (auto simp: in_order_def)
      with c1(1) c2(1) have "c1 \<noteq> c2"
        by (auto simp: clone_held_def)
      with c1 c2 show ?thesis by blast
    qed
    then obtain c1 c2 where c: "c1 \<noteq> c2"
      "clone_held (fst (tr ! i1)) (snd (tr ! i1)) (rs ! i1) t1 c1"
      "same_kind h0 a1 (heap (snd (tr ! i1))) c1"
      "clone_held (fst (tr ! i2)) (snd (tr ! i2)) (rs ! i2) t2 c2"
      "same_kind h0 a2 (heap (snd (tr ! i2))) c2"
      by blast
    from child_held [OF 1(6,7,8) c(2,3)] child_held [OF 2(6,7,8) c(4,5)] c(1) r 1(1) 2(1)
    show ?thesis by blast
  qed
qed


section \<open>Two inputs of the tests, on any store\<close>

lemma shared_array_run:
  assumes inp: "lookup h inp = Some (Plain [(''a'', Ref arr), (''b'', Ref arr)])"
    and arr: "lookup h arr = Some (Arr [f])"
    and ninp: "\<not> isx h (Ref inp)"
    and narr: "\<forall>ext. \<not> isx (h @ ext) (Ref arr)"
    and f: "\<forall>ext. isx (h @ ext) f"
  shows "extractFiles (Suc (Suc (Suc depth))) h (Ref inp) [] isx
           = Inr (Ref (length h),
                  \<lparr>heap = h @ [Plain [(''a'', Ref (Suc (length h))), (''b'', Ref (Suc (Suc (length h))))],
                               Arr [Prim Null], Arr [Prim Null]],
                   files = [(f, [''a.0'', ''b.0''])]\<rparr>)"
proof -
  from arr have a: "arr < length h" by (rule lookup_Some_less)
  have neq: "arr \<noteq> inp" using inp arr by auto
  let ?s0 = "\<lparr>heap = h @ [Plain []], files = []\<rparr>"
  have 1: "recurse (Suc (Suc depth)) isx (Ref arr) ''a'' (Some {inp}) ?s0
     = Inr (Ref (Suc (length h)), \<lparr>heap = h @ [Plain [], Arr [Prim Null]], files = [(f, [''a.0''])]\<rparr>)"
    using arr a neq narr [rule_format, of "[Plain []]"] f [rule_format, of "[Plain [], Arr []]"]
    by (simp add: recurse_array recurse_extractable lookup_append array_map_def pathPrefix_def
        string_of_nat_0 push_append addFile_def del: recurse.simps)
       (simp add: push_def lookup_def)
  let ?s1 = "\<lparr>heap = h @ [Plain [(''a'', Ref (Suc (length h)))], Arr [Prim Null]], files = [(f, [''a.0''])]\<rparr>"
  have 2: "recurse (Suc (Suc depth)) isx (Ref arr) ''b'' (Some {inp}) ?s1
     = Inr (Ref (Suc (Suc (length h))),
         \<lparr>heap = h @ [Plain [(''a'', Ref (Suc (length h)))], Arr [Prim Null], Arr [Prim Null]],
          files = [(f, [''a.0'', ''b.0''])]\<rparr>)"
    using arr a neq narr [rule_format, of "[Plain [(''a'', Ref (Suc (length h)))], Arr [Prim Null]]"]
      f [rule_format, of "[Plain [(''a'', Ref (Suc (length h)))], Arr [Prim Null], Arr []]"]
    by (simp add: recurse_array recurse_extractable lookup_append array_map_def pathPrefix_def
        string_of_nat_0 push_append addFile_def del: recurse.simps)
       (simp add: push_def lookup_def)
  show ?thesis
    using inp ninp 1 2
    by (simp add: extractFiles_def recurse_plain lookup_append assign_fresh_plain pathPrefix_def
        del: recurse.simps)
qed

lemma default_example_matcher:
  "\<not> defaultIsExtractableFile [Plain [(''a'', Ref 1), (''b'', Ref 1)], Arr [Ref 2], Inst ''ReactNativeFile'' [] []] (Ref 0)"
  "\<forall>ext. \<not> defaultIsExtractableFile
      ([Plain [(''a'', Ref 1), (''b'', Ref 1)], Arr [Ref 2], Inst ''ReactNativeFile'' [] []] @ ext) (Ref 1)"
  "\<forall>ext. defaultIsExtractableFile
      ([Plain [(''a'', Ref 1), (''b'', Ref 1)], Arr [Ref 2], Inst ''ReactNativeFile'' [] []] @ ext) (Ref 2)"
  by (simp_all add: defaultIsExtractableFile_def lookup_def)


lemma prefixed_run:
  assumes inp: "lookup h inp = Some (Plain [(''a'', Ref arr)])"
    and arr: "lookup h arr = Some (Arr [f])"
    and ninp: "\<not> isx h (Ref inp)"
    and narr: "\<forall>ext. \<not> isx (h @ ext) (Ref arr)"
    and f: "\<forall>ext. isx (h @ ext) f"
  shows "extractFiles (Suc (Suc (Suc depth))) h (Ref inp) ''prefix'' isx
           = Inr (Ref (length h),
                  \<lparr>heap = h @ [Plain [(''a'', Ref (Suc (length h)))], Arr [Prim Null]],
                   files = [(f, [''prefix.a.0''])]\<rparr>)"
proof -
  from arr have a: "arr < length h" by (rule lookup_Some_less)
  have neq: "arr \<noteq> inp" using inp arr by auto
  let ?s0 = "\<lparr>heap = h @ [Plain []], files = []\<rparr>"
  have 1: "recurse (Suc (Suc depth)) isx (Ref arr) ''prefix.a'' (Some {inp}) ?s0
     = Inr (Ref (Suc (length h)),
            \<lparr>heap = h @ [Plain [], Arr [Prim Null]], files = [(f, [''prefix.a.0''])]\<rparr>)"
    using arr a neq narr [rule_format, of "[Plain []]"] f [rule_format, of "[Plain [], Arr []]"]
    by (simp add: recurse_array recurse_extractable lookup_append array_map_def pathPrefix_def
        string_of_nat_0 push_append addFile_def del: recurse.simps)
       (simp add: push_def lookup_def)
  show ?thesis
    using inp ninp 1
    by (simp add: extractFiles_def recurse_plain lookup_append assign_fresh_plain pathPrefix_def
        del: recurse.simps)
qed


section \<open>C1: a container under two branches is recursed under both\<close>

text \<open>
  C1. First part, for every input: take any position of the input, that is, a list of
  segments that leads from the input value to a leaf \<open>f\<close> through arrays and plain
  objects which the matcher rejects and none of which occurs twice on the way (so the
  way goes round no cycle). If the matcher accepts \<open>f\<close> and the call returns, then the
  path of that position is in the path list of \<open>f\<close>. Whether a container on the way also
  sits at other positions of the input plays no role: only the containers on the way
  itself are in the visited set of the branch. A container under two branches that are
  not on each other's way is thus recursed under both.

  Second part, the input \<open>{a: arr, b: arr}\<close> with \<open>arr = [g]\<close>, where the matcher accepts
  \<open>g\<close> and rejects the two containers: the index maps \<open>g\<close> to \<open>["a.0", "b.0"]\<close> and the
  clone is \<open>{a: [null], b: [null]}\<close>.
\<close>

theorem shared_containers_are_recursed_in_every_branch:
  "(closed_heap h \<and> closed_val h value \<and> stable_matcher h isExtractableFile
      \<and> extractFiles depth h value path isExtractableFile = Inr (clone, s')
      \<and> isExtractableFile h f \<and> reaches isExtractableFile h {} value segs f
      \<and> length segs < depth
    \<longrightarrow> (\<exists>ps. map_of (files s') f = Some ps \<and> recorded_path path segs \<in> set ps))
   \<and> (lookup h inp = Some (Plain [(''a'', Ref arr), (''b'', Ref arr)])
      \<and> lookup h arr = Some (Arr [g])
      \<and> \<not> isExtractableFile h (Ref inp)
      \<and> (\<forall>ext. \<not> isExtractableFile (h @ ext) (Ref arr))
      \<and> (\<forall>ext. isExtractableFile (h @ ext) g)
    \<longrightarrow> extractFiles (Suc (Suc (Suc d))) h (Ref inp) [] isExtractableFile
          = Inr (Ref (length h),
                 \<lparr>heap = h @ [Plain [(''a'', Ref (Suc (length h))),
                                     (''b'', Ref (Suc (Suc (length h))))],
                              Arr [Prim Null], Arr [Prim Null]],
                  files = [(g, [''a.0'', ''b.0''])]\<rparr>))"
proof (intro conjI impI)
  assume "closed_heap h \<and> closed_val h value \<and> stable_matcher h isExtractableFile
      \<and> extractFiles depth h value path isExtractableFile = Inr (clone, s')
      \<and> isExtractableFile h f \<and> reaches isExtractableFile h {} value segs f
      \<and> length segs < depth"
  then show "\<exists>ps. map_of (files s') f = Some ps \<and> recorded_path path segs \<in> set ps"
    by (blast intro: reached_leaf_is_indexed)
next
  assume "lookup h inp = Some (Plain [(''a'', Ref arr), (''b'', Ref arr)])
      \<and> lookup h arr = Some (Arr [g])
      \<and> \<not> isExtractableFile h (Ref inp)
      \<and> (\<forall>ext. \<not> isExtractableFile (h @ ext) (Ref arr))
      \<and> (\<forall>ext. isExtractableFile (h @ ext) g)"
  then show "extractFiles (Suc (Suc (Suc d))) h (Ref inp) [] isExtractableFile
          = Inr (Ref (length h),
                 \<lparr>heap = h @ [Plain [(''a'', Ref (Suc (length h))),
                                     (''b'', Ref (Suc (Suc (length h))))],
                              Arr [Prim Null], Arr [Prim Null]],
                  files = [(g, [''a.0'', ''b.0''])]\<rparr>)"
    by (elim conjE) (rule shared_array_run; assumption)
qed

theorem shared_containers_are_recursed_in_every_branch_witness:
  "closed_heap [Plain [(''a'', Ref 1), (''b'', Ref 1)], Arr [Ref 2], Inst ''ReactNativeFile'' [] []]
   \<and> stable_matcher [Plain [(''a'', Ref 1), (''b'', Ref 1)], Arr [Ref 2], Inst ''ReactNativeFile'' [] []]
        defaultIsExtractableFile
   \<and> reaches defaultIsExtractableFile
        [Plain [(''a'', Ref 1), (''b'', Ref 1)], Arr [Ref 2], Inst ''ReactNativeFile'' [] []] {}
        (Ref 0) [''a'', ''0''] (Ref 2)
   \<and> reaches defaultIsExtractableFile
        [Plain [(''a'', Ref 1), (''b'', Ref 1)], Arr [Ref 2], Inst ''ReactNativeFile'' [] []] {}
        (Ref 0) [''b'', ''0''] (Ref 2)
   \<and> extractFiles 3 [Plain [(''a'', Ref 1), (''b'', Ref 1)], Arr [Ref 2], Inst ''ReactNativeFile'' [] []]
        (Ref 0) [] defaultIsExtractableFile
       = Inr (Ref 3,
              \<lparr>heap = [Plain [(''a'', Ref 1), (''b'', Ref 1)], Arr [Ref 2], Inst ''ReactNativeFile'' [] [],
                       Plain [(''a'', Ref 4), (''b'', Ref 5)], Arr [Prim Null], Arr [Prim Null]],
               files = [(Ref 2, [''a.0'', ''b.0''])]\<rparr>)
   \<and> (\<exists>ps. map_of [(Ref 2, [''a.0'', ''b.0''])] (Ref 2) = Some ps
         \<and> recorded_path [] [''a'', ''0''] \<in> set ps \<and> recorded_path [] [''b'', ''0''] \<in> set ps)"
proof -
  let ?h = "[Plain [(''a'', Ref 1), (''b'', Ref 1)], Arr [Ref 2], Inst ''ReactNativeFile'' [] []]"
  let ?s = "\<lparr>heap = [Plain [(''a'', Ref 1), (''b'', Ref 1)], Arr [Ref 2], Inst ''ReactNativeFile'' [] [],
                     Plain [(''a'', Ref 4), (''b'', Ref 5)], Arr [Prim Null], Arr [Prim Null]],
             files = [(Ref 2, [''a.0'', ''b.0''])]\<rparr>"
  have wf: "closed_heap ?h" "closed_val ?h (Ref 0)"
    by (simp_all add: closed_heap_def closed_val_def)
  have st: "stable_matcher ?h defaultIsExtractableFile"
    by (rule default_matcher_stable)
  have f: "defaultIsExtractableFile ?h (Ref 2)"
    by (simp add: defaultIsExtractableFile_def lookup_def)
  have ra: "reaches defaultIsExtractableFile ?h {} (Ref 0) [''a'', ''0''] (Ref 2)"
    and rb: "reaches defaultIsExtractableFile ?h {} (Ref 0) [''b'', ''0''] (Ref 2)"
    by code_simp+
  have l1: "lookup ?h 0 = Some (Plain [(''a'', Ref 1), (''b'', Ref 1)])"
    and l2: "lookup ?h 1 = Some (Arr [Ref 2])"
    by (simp_all add: lookup_def)
  from shared_containers_are_recursed_in_every_branch
         [of ?h _ defaultIsExtractableFile _ _ _ _ _ _ 0 1 "Ref 2" 0]
       l1 l2 default_example_matcher
  have run: "extractFiles 3 ?h (Ref 0) [] defaultIsExtractableFile = Inr (Ref 3, ?s)"
    by (simp add: numeral_3_eq_3)
  from shared_containers_are_recursed_in_every_branch
         [of ?h "Ref 0" defaultIsExtractableFile 3 "[]" "Ref 3" ?s "Ref 2" "[''a'', ''0'']"]
       wf st f ra run
  have a: "\<exists>ps. map_of (files ?s) (Ref 2) = Some ps \<and> recorded_path [] [''a'', ''0''] \<in> set ps"
    by simp
  from shared_containers_are_recursed_in_every_branch
         [of ?h "Ref 0" defaultIsExtractableFile 3 "[]" "Ref 3" ?s "Ref 2" "[''b'', ''0'']"]
       wf st f rb run
  have b: "\<exists>ps. map_of (files ?s) (Ref 2) = Some ps \<and> recorded_path [] [''b'', ''0''] \<in> set ps"
    by simp
  from a b wf st ra rb run show ?thesis
    by auto
qed


section \<open>C2: a self-referencing object\<close>

text \<open>
  C2, as the code has it. For \<open>o\<close> with \<open>o.b = o\<close> and a matcher that rejects \<open>o\<close>, as the
  default matcher does, the call returns with two stack frames: the clone is a new
  object, its only key is \<open>b\<close>, and the index is empty. The value under \<open>b\<close> is the
  original \<open>o\<close>, passed through because \<open>o\<close> is in the set \<open>recursed\<close>: the clone refers to
  the input, not to itself.
\<close>

theorem circular_object_clone:
  assumes "lookup h a = Some (Plain [(''b'', Ref a)])"
    and "\<forall>ext. \<not> isExtractableFile (h @ ext) (Ref a)"
  shows "extractFiles (Suc (Suc depth)) h (Ref a) [] isExtractableFile
           = Inr (Ref (length h), \<lparr>heap = h @ [Plain [(''b'', Ref a)]], files = []\<rparr>)
         \<and> property (h @ [Plain [(''b'', Ref a)]]) (Ref (length h)) ''b'' = Ref a
         \<and> Ref a \<noteq> Ref (length h)"
proof -
  from assms(1) have a: "a < length h" by (rule lookup_Some_less)
  note nx = assms(2) [rule_format]
  from nx [of "[]"] have nx0: "\<not> isExtractableFile h (Ref a)" by simp
  have "extractFiles (Suc (Suc depth)) h (Ref a) [] isExtractableFile
           = Inr (Ref (length h), \<lparr>heap = h @ [Plain [(''b'', Ref a)]], files = []\<rparr>)"
    using assms(1) a nx nx0
    by (simp add: extractFiles_def recurse_plain recurse_seen lookup_append assign_fresh_plain
        pathPrefix_def del: recurse.simps)
  with a show ?thesis
    by (simp add: property_def lookup_append lookup_def)
qed

theorem circular_object_clone_witness:
  "lookup [Plain [(''b'', Ref 0)]] 0 = Some (Plain [(''b'', Ref 0)])
   \<and> (\<forall>ext. \<not> defaultIsExtractableFile ([Plain [(''b'', Ref 0)]] @ ext) (Ref 0))
   \<and> extractFiles 2 [Plain [(''b'', Ref 0)]] (Ref 0) [] defaultIsExtractableFile
       = Inr (Ref 1, \<lparr>heap = [Plain [(''b'', Ref 0)], Plain [(''b'', Ref 0)]], files = []\<rparr>)"
proof -
  have 1: "lookup [Plain [(''b'', Ref 0)]] 0 = Some (Plain [(''b'', Ref 0)])"
    by (simp add: lookup_def)
  have 2: "\<forall>ext. \<not> defaultIsExtractableFile ([Plain [(''b'', Ref 0)]] @ ext) (Ref 0)"
    by (simp add: defaultIsExtractableFile_def lookup_def)
  from circular_object_clone [of "[Plain [(''b'', Ref 0)]]" 0 defaultIsExtractableFile 0, OF 1 2] 1 2
  show ?thesis
    by (simp add: numeral_2_eq_2)
qed

text \<open>
  C2 as stated fails: in the clone \<open>c\<close> of the object \<open>o\<close> at address 0, \<open>c.b\<close> is \<open>o\<close> and
  not \<open>c\<close>.
\<close>

theorem circular_clone_is_not_self_referencing:
  "extractFiles 2 [Plain [(''b'', Ref 0)]] (Ref 0) [] defaultIsExtractableFile
     = Inr (Ref 1, \<lparr>heap = [Plain [(''b'', Ref 0)], Plain [(''b'', Ref 0)]], files = []\<rparr>)
   \<and> property [Plain [(''b'', Ref 0)], Plain [(''b'', Ref 0)]] (Ref 1) ''b'' = Ref 0
   \<and> property [Plain [(''b'', Ref 0)], Plain [(''b'', Ref 0)]] (Ref 1) ''b'' \<noteq> Ref 1"
  by code_simp


section \<open>C3: totality\<close>





section \<open>C4: the index is keyed by identity and keeps the order\<close>




section \<open>C5: a plain object is cloned key by key, but for one key\<close>

text \<open>
  What the code does for a plain object with properties \<open>kvs\<close>, none of them named
  \<open>__proto__\<close>, that the matcher rejects and that is not in the visited set. If the call
  returns, then the clone is a reference to a new object (its address was not in the
  store when the call began); that object is a plain object with the same keys in the
  same order; each of its values is what a recursive call on the value under the same
  key returns, made at the path \<open>prefix + key\<close> with the visited set plus the object
  itself; and the object cloned is as it was.
\<close>

lemma plain_object_cloned:
  assumes ob: "lookup (heap s) a = Some (Plain kvs)"
    and keys: "distinct (map fst kvs)"
    and proto: "''__proto__'' \<notin> fst ` set kvs"
    and nx: "\<not> isExtractableFile (heap s) (Ref a)"
    and new: "a \<notin> recursed"
    and run: "recurse (Suc depth) isExtractableFile (Ref a) path (Some recursed) s = Inr (clone, s')"
  shows "clone = Ref (length (heap s))
       \<and> lookup (heap s') a = Some (Plain kvs)
       \<and> (\<exists>kvs'. lookup (heap s') (length (heap s)) = Some (Plain kvs')
            \<and> map fst kvs' = map fst kvs
            \<and> list_all2 (\<lambda>(key, v) (key', r). key' = key \<and>
                 (\<exists>s1 s2. recurse depth isExtractableFile v (pathPrefix path @ key)
                             (Some (insert a recursed)) s1 = Inr (r, s2))) kvs kvs')"
proof -
  let ?f = "\<lambda>key v. recurse depth isExtractableFile v (pathPrefix path @ key) (Some (insert a recursed))"
  let ?s0 = "s\<lparr>heap := heap s @ [Plain []]\<rparr>"
  from ob nx new run have loop: "for_in ?f (length (heap s)) kvs ?s0 = Inr s'"
    and clone: "clone = Ref (length (heap s))"
    by (auto simp: recurse_plain simp del: recurse.simps split: sum.splits)
  have fr: "\<forall>key v s r s1. ?f key v s = Inr (r, s1) \<longrightarrow> prefix (heap s) (heap s1)"
    by (blast dest: recurse_frame)
  have "lookup (heap ?s0) (length (heap s)) = Some (Plain [])"
    by (simp add: lookup_append) (simp add: lookup_def)
  from for_in_content [where f = ?f, OF fr loop this keys _ proto] obtain kvs' where
    kvs': "lookup (heap s') (length (heap s)) = Some (Plain kvs')"
    "list_all2 (\<lambda>(key, v) (key', r). key' = key \<and> (\<exists>s1 s2. ?f key v s1 = Inr (r, s2))) kvs kvs'"
    by auto
  from kvs'(2) have "map fst kvs' = map fst kvs"
    by (rule list_all2_same_keys)
  moreover from run have "prefix (heap s) (heap s')" by (rule recurse_frame)
  with ob have "lookup (heap s') a = Some (Plain kvs)"
    by (simp add: lookup_prefix lookup_Some_less)
  ultimately show ?thesis
    using clone kvs' by blast
qed

text \<open>
  C5 says that the clone of every plain object has the same keys in the same order. The
  code copies the properties with \<open>clone[key] = ...\<close>, and for the key \<open>__proto__\<close> this
  assignment creates no property. On the object that \<open>JSON.parse('{"__proto__": 1}')\<close>
  returns, the clone has no key at all; and when a file sits under that key, the index
  lists the path \<open>__proto__\<close>, at which the clone holds nothing.
\<close>

theorem proto_key_is_not_cloned:
  "extractFiles 2 [Plain [(''__proto__'', Prim (Num 1))]] (Ref 0) [] defaultIsExtractableFile
     = Inr (Ref 1, \<lparr>heap = [Plain [(''__proto__'', Prim (Num 1))], Plain []], files = []\<rparr>)
   \<and> extractFiles 2 [Plain [(''__proto__'', Ref 1), (''a'', Prim (Num 1))], Inst ''File'' [] []] (Ref 0) []
         defaultIsExtractableFile
     = Inr (Ref 2,
            \<lparr>heap = [Plain [(''__proto__'', Ref 1), (''a'', Prim (Num 1))], Inst ''File'' [] [],
                     Derived (Prim Null) [(''a'', Prim (Num 1))]],
             files = [(Ref 1, [''__proto__''])]\<rparr>)"
  by code_simp


section \<open>C6: how paths are built\<close>

text \<open>
  Where C6 holds. Every path of the index is the path of a position of the leaf it is
  listed under; and when the prefix is not empty, or the position is the empty one, or
  its first segment is not the empty string, that path is the dot-joined path of the
  spec: the segments separated by \<open>.\<close>, nothing before the first one when the prefix is
  empty, the prefix and one \<open>.\<close> before it otherwise. An index is rendered by its decimal
  digits without a leading zero (\<open>string_of_nat_digits\<close>, \<open>nat_of_string_of_nat\<close>,
  \<open>string_of_nat_no_leading_zero\<close>), and \<open>{a: [g]}\<close> with the prefix \<open>prefix\<close> gives
  \<open>prefix.a.0\<close> (\<open>prefixed_run\<close>).
\<close>

lemma recorded_paths_follow_positions:
  assumes "closed_heap h" and "closed_val h value" and "stable_matcher h isExtractableFile"
    and "extractFiles depth h value path isExtractableFile = Inr (clone, s')"
    and "(f, ps) \<in> set (files s')" and "q \<in> set ps"
  shows "\<exists>segs. (f, segs) \<in> set (leaf_positions depth isExtractableFile h value (Some {}))
           \<and> (path \<noteq> [] \<or> segs = [] \<or> hd segs \<noteq> [] \<longrightarrow> q = dot_path path segs)"
proof -
  let ?poss = "leaf_positions depth isExtractableFile h value (Some {})"
  from assms(1-4) have "files s' = addFiles (map (\<lambda>(f, segs). (f, recorded_path path segs)) ?poss) []"
    by (rule index_of_positions)
  with assms(5,6) have "(f, q) \<in> set (map (\<lambda>(f, segs). (f, recorded_path path segs)) ?poss)"
    by (auto dest: files_member_occurrence)
  then obtain segs where "(f, segs) \<in> set ?poss" "q = recorded_path path segs"
    by auto
  with recorded_path_dot_path [of path segs] show ?thesis
    by blast
qed

text \<open>
  C6 is what the code sets out to do and misses in one case. The separator is written
  by \<open>path ? `${path}.` : ''\<close> (line 108), which tests the path built so far for
  truthiness. An empty key under an empty prefix leaves the path empty, so the next
  segment gets no separator: for \<open>{"": {a: f}}\<close> the leaf is at the position with the
  segments \<open>""\<close> and \<open>"a"\<close>, whose dot-joined path is \<open>".a"\<close>, and the code records \<open>"a"\<close>,
  which is the path of no value of the input. Under a key that is not empty the same
  empty key keeps its separator: for \<open>{x: {"": {a: f}}}\<close> the code records \<open>"x..a"\<close>,
  the dot-joined path.
\<close>

theorem empty_key_leaves_no_separator:
  "extractFiles 3 [Plain [([], Ref 1)], Plain [(''a'', Ref 2)], Inst ''File'' [] []] (Ref 0) []
       defaultIsExtractableFile
     = Inr (Ref 3,
            \<lparr>heap = [Plain [([], Ref 1)], Plain [(''a'', Ref 2)], Inst ''File'' [] [],
                     Plain [([], Ref 4)], Plain [(''a'', Prim Null)]],
             files = [(Ref 2, [''a''])]\<rparr>)
   \<and> leaf_positions 3 defaultIsExtractableFile
        [Plain [([], Ref 1)], Plain [(''a'', Ref 2)], Inst ''File'' [] []] (Ref 0) (Some {})
     = [(Ref 2, [[], ''a''])]
   \<and> resolve [Plain [([], Ref 1)], Plain [(''a'', Ref 2)], Inst ''File'' [] []] (Ref 0) [[], ''a''] = [Ref 2]
   \<and> dot_path [] [[], ''a''] = ''.a''
   \<and> ''a'' \<noteq> dot_path [] [[], ''a'']
   \<and> resolve [Plain [([], Ref 1)], Plain [(''a'', Ref 2)], Inst ''File'' [] []] (Ref 0) [''a''] = []
   \<and> extractFiles 4 [Plain [(''x'', Ref 1)], Plain [([], Ref 2)], Plain [(''a'', Ref 3)],
                     Inst ''File'' [] []] (Ref 0) [] defaultIsExtractableFile
     = Inr (Ref 4,
            \<lparr>heap = [Plain [(''x'', Ref 1)], Plain [([], Ref 2)], Plain [(''a'', Ref 3)],
                     Inst ''File'' [] [],
                     Plain [(''x'', Ref 5)], Plain [([], Ref 6)], Plain [(''a'', Prim Null)]],
             files = [(Ref 3, [''x..a''])]\<rparr>)
   \<and> dot_path [] [''x'', [], ''a''] = ''x..a''"
  by code_simp


section \<open>C7: the input is never mutated\<close>

text \<open>
  C7. Whenever \<open>extractFiles\<close> returns, every object that existed before the call is in the
  final store at its old address with its old contents: the final store is the initial
  one followed by the objects allocated during the call (the clone and its parts).
\<close>

theorem extractFiles_preserves_input:
  assumes "extractFiles depth h value path isExtractableFile = Inr (clone, s')"
  shows "take (length h) (heap s') = h \<and> (\<forall>a<length h. lookup (heap s') a = lookup h a)"
proof -
  from assms have "prefix h (heap s')"
    by (auto simp: extractFiles_def dest: recurse_frame)
  then show ?thesis
    by (auto simp: prefix_def lookup_append)
qed

theorem extractFiles_preserves_input_witness:
  "extractFiles 3 [Plain [(''a'', Ref 1), (''b'', Ref 1)], Arr [Ref 2], Inst ''File'' [] []] (Ref 0) []
       defaultIsExtractableFile
     = Inr (Ref 3,
            \<lparr>heap = [Plain [(''a'', Ref 1), (''b'', Ref 1)], Arr [Ref 2], Inst ''File'' [] [],
                     Plain [(''a'', Ref 4), (''b'', Ref 5)], Arr [Prim Null], Arr [Prim Null]],
             files = [(Ref 2, [''a.0'', ''b.0''])]\<rparr>)
   \<and> take 3 [Plain [(''a'', Ref 1), (''b'', Ref 1)], Arr [Ref 2], Inst ''File'' [] [],
               Plain [(''a'', Ref 4), (''b'', Ref 5)], Arr [Prim Null], Arr [Prim Null]]
     = [Plain [(''a'', Ref 1), (''b'', Ref 1)], Arr [Ref 2], Inst ''File'' [] []]"
proof -
  have run: "extractFiles 3 [Plain [(''a'', Ref 1), (''b'', Ref 1)], Arr [Ref 2], Inst ''File'' [] []]
       (Ref 0) [] defaultIsExtractableFile
     = Inr (Ref 3,
            \<lparr>heap = [Plain [(''a'', Ref 1), (''b'', Ref 1)], Arr [Ref 2], Inst ''File'' [] [],
                     Plain [(''a'', Ref 4), (''b'', Ref 5)], Arr [Prim Null], Arr [Prim Null]],
             files = [(Ref 2, [''a.0'', ''b.0''])]\<rparr>)"
    by code_simp
  from extractFiles_preserves_input [OF run] run show ?thesis
    by simp
qed


section \<open>C8: extractable values are leaves\<close>

text \<open>
  C8. A value that the matcher accepts is a leaf whatever its shape: with a single stack
  frame the call returns \<open>null\<close> as the clone, leaves the store as it is (nothing is
  cloned, nothing inside the value is visited) and appends the current path to the
  entry of the value in the index. Called on the value itself, \<open>extractFiles\<close> returns
  the clone \<open>null\<close> and the index with the one entry \<open>value \<mapsto> [path]\<close>, where the path is
  the prefix passed in (empty by default).
\<close>

theorem extractable_value_is_leaf:
  assumes "isExtractableFile h value"
  shows "recurse (Suc depth) isExtractableFile value path recursed \<lparr>heap = h, files = fs\<rparr>
           = Inr (Prim Null, \<lparr>heap = h, files = addFile value path fs\<rparr>)
       \<and> map_of (addFile value path fs) value
           = Some ((case map_of fs value of None \<Rightarrow> [] | Some ps \<Rightarrow> ps) @ [path])
       \<and> extractFiles (Suc depth) h value path isExtractableFile
           = Inr (Prim Null, \<lparr>heap = h, files = [(value, [path])]\<rparr>)"
  using assms
  by (simp add: extractFiles_def addFile_def AList.update_conv' map_add_def split: option.splits)

theorem extractable_value_is_leaf_witness:
  "defaultIsExtractableFile [Inst ''ReactNativeFile'' [] []] (Ref 0)
   \<and> extractFiles 1 [Inst ''ReactNativeFile'' [] []] (Ref 0) ''p'' defaultIsExtractableFile
       = Inr (Prim Null, \<lparr>heap = [Inst ''ReactNativeFile'' [] []], files = [(Ref 0, [''p''])]\<rparr>)
   \<and> extractFiles 1 [Inst ''ReactNativeFile'' [] []] (Ref 0) [] defaultIsExtractableFile
       = Inr (Prim Null, \<lparr>heap = [Inst ''ReactNativeFile'' [] []], files = [(Ref 0, [[]])]\<rparr>)"
proof -
  have m: "defaultIsExtractableFile [Inst ''ReactNativeFile'' [] []] (Ref 0)"
    by (simp add: defaultIsExtractableFile_def lookup_def)
  note leaf = extractable_value_is_leaf
    [of defaultIsExtractableFile "[Inst ''ReactNativeFile'' [] []]" "Ref 0" 0, OF m]
  from leaf [of "''p''"] leaf [of "[]"] m show ?thesis by simp
qed


section \<open>C9: the ReactNativeFile constructor\<close>

text \<open>
  C9. The constructor validates nothing. Given any source object, indeed any argument that
  can be destructured (anything but \<open>undefined\<close> and \<open>null\<close>), it returns a new instance
  of \<open>ReactNativeFile\<close> whose properties are exactly \<open>uri\<close>, \<open>name\<close> and \<open>type\<close>, holding
  the values read from the source as they are; a property that the source lacks is read
  as \<open>undefined\<close> and stored as such. The store is otherwise unchanged.
\<close>

theorem ReactNativeFile_stores_verbatim:
  assumes "source \<noteq> Prim Undefined" and "source \<noteq> Prim Null"
  shows "ReactNativeFile h source =
           Inr (Ref (length h),
                h @ [Inst ''ReactNativeFile''
                       [(''uri'', property h source ''uri''),
                        (''name'', property h source ''name''),
                        (''type'', property h source ''type'')] []])"
  using assms
  by (simp add: ReactNativeFile_def Let_def assign_def store_property_def object_prototype_slot_def
      lookup_def)

theorem ReactNativeFile_stores_verbatim_witness:
  "Ref 0 \<noteq> Prim Undefined \<and> Ref 0 \<noteq> Prim Null
   \<and> ReactNativeFile [Plain [(''uri'', Prim (Str ''u'')), (''type'', Prim (Num 3))]] (Ref 0) =
       Inr (Ref 1,
            [Plain [(''uri'', Prim (Str ''u'')), (''type'', Prim (Num 3))],
             Inst ''ReactNativeFile''
               [(''uri'', Prim (Str ''u'')), (''name'', Prim Undefined), (''type'', Prim (Num 3))] []])"
  using ReactNativeFile_stores_verbatim
          [of "Ref 0" "[Plain [(''uri'', Prim (Str ''u'')), (''type'', Prim (Num 3))]]"]
  by (simp add: property_def lookup_def)


section \<open>C10: aliasing of containers is not kept in the clone\<close>

text \<open>
  C10. First part, for every input: let the array or plain object at address \<open>a\<close> stand
  at two different positions of the input at which the algorithm clones it
  (\<open>cloned_at\<close>), neither of them through a key \<open>__proto__\<close> (which the clone does not
  have, see C5). If the call returns, then the clone holds at the first position a
  reference \<open>c1\<close> and at the second a reference \<open>c2\<close>, walking the same segments from
  the clone in the final store, such that \<open>c1\<close> and \<open>c2\<close> are different, both are
  addresses of objects allocated by the call (at or after the length of the store
  before the call, so neither is \<open>a\<close> nor any object of the input), and both objects are
  of the kind of \<open>a\<close>: arrays of the length of \<open>a\<close>, or keyed objects.

  Second part, the input \<open>{a: arr, b: arr}\<close> with \<open>arr = [g]\<close>: the call returns, and the
  clone holds under \<open>a\<close> and under \<open>b\<close> two different references, both new, to arrays with
  equal contents, \<open>[null]\<close>.
\<close>

theorem container_aliasing_is_not_preserved:
  "(closed_heap h \<and> distinct_keys h \<and> closed_val h value \<and> stable_matcher h isExtractableFile
      \<and> extractFiles depth h value path isExtractableFile = Inr (clone, s')
      \<and> cloned_at isExtractableFile h {} value segs1 a
      \<and> cloned_at isExtractableFile h {} value segs2 a
      \<and> segs1 \<noteq> segs2 \<and> ''__proto__'' \<notin> set segs1 \<and> ''__proto__'' \<notin> set segs2
    \<longrightarrow> (\<exists>c1 c2.
           Ref c1 \<in> set (resolve (heap s') clone segs1)
         \<and> Ref c2 \<in> set (resolve (heap s') clone segs2)
         \<and> c1 \<noteq> c2
         \<and> length h \<le> c1 \<and> c1 < length (heap s') \<and> length h \<le> c2 \<and> c2 < length (heap s')
         \<and> same_kind h a (heap s') c1 \<and> same_kind h a (heap s') c2))
   \<and> (lookup h inp = Some (Plain [(''a'', Ref arr), (''b'', Ref arr)])
      \<and> lookup h arr = Some (Arr [g])
      \<and> \<not> isExtractableFile h (Ref inp)
      \<and> (\<forall>ext. \<not> isExtractableFile (h @ ext) (Ref arr))
      \<and> (\<forall>ext. isExtractableFile (h @ ext) g)
    \<longrightarrow> (\<exists>clone s' ca cb.
           extractFiles (Suc (Suc (Suc d))) h (Ref inp) [] isExtractableFile = Inr (clone, s')
         \<and> property (heap s') clone ''a'' = Ref ca
         \<and> property (heap s') clone ''b'' = Ref cb
         \<and> ca \<noteq> cb \<and> length h \<le> ca \<and> length h \<le> cb \<and> ca \<noteq> arr \<and> cb \<noteq> arr
         \<and> lookup (heap s') ca = Some (Arr [Prim Null])
         \<and> lookup (heap s') cb = lookup (heap s') ca))"
proof (rule conjI; rule impI)
  assume hyp: "closed_heap h \<and> distinct_keys h \<and> closed_val h value \<and> stable_matcher h isExtractableFile
      \<and> extractFiles depth h value path isExtractableFile = Inr (clone, s')
      \<and> cloned_at isExtractableFile h {} value segs1 a
      \<and> cloned_at isExtractableFile h {} value segs2 a
      \<and> segs1 \<noteq> segs2 \<and> ''__proto__'' \<notin> set segs1 \<and> ''__proto__'' \<notin> set segs2"
  let ?s = "\<lparr>heap = h, files = []\<rparr>"
  from hyp have run: "recurse depth isExtractableFile value path (Some {}) ?s = Inr (clone, s')"
    by (simp add: extractFiles_def)
  have pre: "prefix h (heap ?s)"
    by simp
  from hyp have wf: "closed_heap h" and dk: "distinct_keys h" and st: "stable_matcher h isExtractableFile"
    and cv: "closed_val h value"
    and at1: "cloned_at isExtractableFile h {} value segs1 a"
    and at2: "cloned_at isExtractableFile h {} value segs2 a"
    and ne: "segs1 \<noteq> segs2" and np1: "''__proto__'' \<notin> set segs1" and np2: "''__proto__'' \<notin> set segs2"
    by blast+
  from clones_distinct [OF wf dk st run pre cv at1 at2 ne np1 np2] obtain c1 c2 where
    c: "c1 \<noteq> c2" "clone_held ?s s' clone segs1 c1" "same_kind h a (heap s') c1"
      "clone_held ?s s' clone segs2 c2" "same_kind h a (heap s') c2"
    by blast
  have "Ref c \<in> set (resolve (heap s') clone segs) \<and> length h \<le> c \<and> c < length (heap s')"
    if "clone_held ?s s' clone segs c" for segs c
    using that unfolding clone_held_def by auto
  from this [OF c(2)] this [OF c(4)] c(1,3,5)
  show "\<exists>c1 c2.
           Ref c1 \<in> set (resolve (heap s') clone segs1)
         \<and> Ref c2 \<in> set (resolve (heap s') clone segs2)
         \<and> c1 \<noteq> c2
         \<and> length h \<le> c1 \<and> c1 < length (heap s') \<and> length h \<le> c2 \<and> c2 < length (heap s')
         \<and> same_kind h a (heap s') c1 \<and> same_kind h a (heap s') c2"
    by blast
next
  assume hyp: "lookup h inp = Some (Plain [(''a'', Ref arr), (''b'', Ref arr)])
      \<and> lookup h arr = Some (Arr [g])
      \<and> \<not> isExtractableFile h (Ref inp)
      \<and> (\<forall>ext. \<not> isExtractableFile (h @ ext) (Ref arr))
      \<and> (\<forall>ext. isExtractableFile (h @ ext) g)"
  let ?s' = "\<lparr>heap = h @ [Plain [(''a'', Ref (Suc (length h))), (''b'', Ref (Suc (Suc (length h))))],
                          Arr [Prim Null], Arr [Prim Null]],
              files = [(g, [''a.0'', ''b.0''])]\<rparr>"
  from hyp have arr: "arr < length h" by (blast dest: lookup_Some_less)
  have "extractFiles (Suc (Suc (Suc d))) h (Ref inp) [] isExtractableFile = Inr (Ref (length h), ?s')"
    using hyp by (elim conjE) (rule shared_array_run; assumption)
  moreover have "property (heap ?s') (Ref (length h)) ''a'' = Ref (Suc (length h))"
    and "property (heap ?s') (Ref (length h)) ''b'' = Ref (Suc (Suc (length h)))"
    by (simp_all add: property_def lookup_append) (simp_all add: lookup_def)
  moreover have "lookup (heap ?s') (Suc (length h)) = Some (Arr [Prim Null])"
    and "lookup (heap ?s') (Suc (Suc (length h))) = lookup (heap ?s') (Suc (length h))"
    by (simp_all add: lookup_append) (simp_all add: lookup_def)
  moreover have "Suc (length h) \<noteq> Suc (Suc (length h))" "length h \<le> Suc (length h)"
    "length h \<le> Suc (Suc (length h))" "Suc (length h) \<noteq> arr" "Suc (Suc (length h)) \<noteq> arr"
    using arr by simp_all
  ultimately show "\<exists>clone s' ca cb.
           extractFiles (Suc (Suc (Suc d))) h (Ref inp) [] isExtractableFile = Inr (clone, s')
         \<and> property (heap s') clone ''a'' = Ref ca
         \<and> property (heap s') clone ''b'' = Ref cb
         \<and> ca \<noteq> cb \<and> length h \<le> ca \<and> length h \<le> cb \<and> ca \<noteq> arr \<and> cb \<noteq> arr
         \<and> lookup (heap s') ca = Some (Arr [Prim Null])
         \<and> lookup (heap s') cb = lookup (heap s') ca"
    by blast
qed

theorem container_aliasing_is_not_preserved_witness:
  "closed_heap [Plain [(''a'', Ref 1), (''b'', Ref 2)], Arr [Ref 3], Arr [Ref 1, Ref 1],
                Inst ''File'' [] []]
   \<and> distinct_keys [Plain [(''a'', Ref 1), (''b'', Ref 2)], Arr [Ref 3], Arr [Ref 1, Ref 1],
                     Inst ''File'' [] []]
   \<and> stable_matcher [Plain [(''a'', Ref 1), (''b'', Ref 2)], Arr [Ref 3], Arr [Ref 1, Ref 1],
                      Inst ''File'' [] []] defaultIsExtractableFile
   \<and> cloned_at defaultIsExtractableFile
        [Plain [(''a'', Ref 1), (''b'', Ref 2)], Arr [Ref 3], Arr [Ref 1, Ref 1], Inst ''File'' [] []]
        {} (Ref 0) [''a''] 1
   \<and> cloned_at defaultIsExtractableFile
        [Plain [(''a'', Ref 1), (''b'', Ref 2)], Arr [Ref 3], Arr [Ref 1, Ref 1], Inst ''File'' [] []]
        {} (Ref 0) [''b'', ''0''] 1
   \<and> cloned_at defaultIsExtractableFile
        [Plain [(''a'', Ref 1), (''b'', Ref 2)], Arr [Ref 3], Arr [Ref 1, Ref 1], Inst ''File'' [] []]
        {} (Ref 0) [''b'', ''1''] 1
   \<and> extractFiles 4 [Plain [(''a'', Ref 1), (''b'', Ref 2)], Arr [Ref 3], Arr [Ref 1, Ref 1],
                      Inst ''File'' [] []] (Ref 0) [] defaultIsExtractableFile
       = Inr (Ref 4,
              \<lparr>heap = [Plain [(''a'', Ref 1), (''b'', Ref 2)], Arr [Ref 3], Arr [Ref 1, Ref 1],
                       Inst ''File'' [] [],
                       Plain [(''a'', Ref 5), (''b'', Ref 6)], Arr [Prim Null],
                       Arr [Ref 7, Ref 8], Arr [Prim Null], Arr [Prim Null]],
               files = [(Ref 3, [''a.0'', ''b.0.0'', ''b.1.0''])]\<rparr>)
   \<and> resolve [Plain [(''a'', Ref 1), (''b'', Ref 2)], Arr [Ref 3], Arr [Ref 1, Ref 1],
               Inst ''File'' [] [],
               Plain [(''a'', Ref 5), (''b'', Ref 6)], Arr [Prim Null],
               Arr [Ref 7, Ref 8], Arr [Prim Null], Arr [Prim Null]] (Ref 4) [''a''] = [Ref 5]
   \<and> resolve [Plain [(''a'', Ref 1), (''b'', Ref 2)], Arr [Ref 3], Arr [Ref 1, Ref 1],
               Inst ''File'' [] [],
               Plain [(''a'', Ref 5), (''b'', Ref 6)], Arr [Prim Null],
               Arr [Ref 7, Ref 8], Arr [Prim Null], Arr [Prim Null]] (Ref 4) [''b'', ''0''] = [Ref 7]
   \<and> resolve [Plain [(''a'', Ref 1), (''b'', Ref 2)], Arr [Ref 3], Arr [Ref 1, Ref 1],
               Inst ''File'' [] [],
               Plain [(''a'', Ref 5), (''b'', Ref 6)], Arr [Prim Null],
               Arr [Ref 7, Ref 8], Arr [Prim Null], Arr [Prim Null]] (Ref 4) [''b'', ''1''] = [Ref 8]
   \<and> (\<exists>c1 c2. Ref c1 \<in> set [Ref 5] \<and> Ref c2 \<in> set [Ref 7] \<and> c1 \<noteq> c2 \<and> 4 \<le> c1 \<and> 4 \<le> c2)
   \<and> (\<exists>c1 c2. Ref c1 \<in> set [Ref 7] \<and> Ref c2 \<in> set [Ref 8] \<and> c1 \<noteq> c2 \<and> 4 \<le> c1 \<and> 4 \<le> c2)
   \<and> (\<exists>clone s' ca cb.
         extractFiles 3 [Plain [(''a'', Ref 1), (''b'', Ref 1)], Arr [Ref 2], Inst ''ReactNativeFile'' [] []]
           (Ref 0) [] defaultIsExtractableFile = Inr (clone, s')
       \<and> property (heap s') clone ''a'' = Ref ca
       \<and> property (heap s') clone ''b'' = Ref cb
       \<and> ca \<noteq> cb \<and> 3 \<le> ca \<and> 3 \<le> cb \<and> ca \<noteq> 1 \<and> cb \<noteq> 1
       \<and> lookup (heap s') ca = Some (Arr [Prim Null])
       \<and> lookup (heap s') cb = lookup (heap s') ca)"
proof -
  let ?h = "[Plain [(''a'', Ref 1), (''b'', Ref 2)], Arr [Ref 3], Arr [Ref 1, Ref 1], Inst ''File'' [] []]"
  let ?H = "[Plain [(''a'', Ref 1), (''b'', Ref 2)], Arr [Ref 3], Arr [Ref 1, Ref 1],
             Inst ''File'' [] [],
             Plain [(''a'', Ref 5), (''b'', Ref 6)], Arr [Prim Null],
             Arr [Ref 7, Ref 8], Arr [Prim Null], Arr [Prim Null]]"
  let ?s = "\<lparr>heap = ?H, files = [(Ref 3, [''a.0'', ''b.0.0'', ''b.1.0''])]\<rparr>"
  let ?g = "[Plain [(''a'', Ref 1), (''b'', Ref 1)], Arr [Ref 2], Inst ''ReactNativeFile'' [] []]"
  have wf: "closed_heap ?h" "closed_val ?h (Ref 0)" and dk: "distinct_keys ?h"
    by (simp_all add: closed_heap_def closed_val_def distinct_keys_def)
  have st: "stable_matcher ?h defaultIsExtractableFile"
    by (rule default_matcher_stable)
  have at: "cloned_at defaultIsExtractableFile ?h {} (Ref 0) [''a''] 1"
    "cloned_at defaultIsExtractableFile ?h {} (Ref 0) [''b'', ''0''] 1"
    "cloned_at defaultIsExtractableFile ?h {} (Ref 0) [''b'', ''1''] 1"
    by code_simp+
  have run: "extractFiles 4 ?h (Ref 0) [] defaultIsExtractableFile = Inr (Ref 4, ?s)"
    by code_simp
  have res: "resolve ?H (Ref 4) [''a''] = [Ref 5]" "resolve ?H (Ref 4) [''b'', ''0''] = [Ref 7]"
    "resolve ?H (Ref 4) [''b'', ''1''] = [Ref 8]"
    by code_simp+
  have sel: "heap ?s = ?H"
    by simp
  have segs: "[''a''] \<noteq> [''b'', ''0'']" "[''b'', ''0''] \<noteq> [''b'', ''1'']"
    "''__proto__'' \<notin> set [''a'']" "''__proto__'' \<notin> set [''b'', ''0'']"
    "''__proto__'' \<notin> set [''b'', ''1'']"
    by simp_all
  from container_aliasing_is_not_preserved
         [THEN conjunct1,
          of ?h "Ref 0" defaultIsExtractableFile 4 "[]" "Ref 4" ?s "[''a'']" 1 "[''b'', ''0'']"]
       wf dk st at(1,2) segs(1,3,4) run
  have "\<exists>c1 c2. Ref c1 \<in> set (resolve (heap ?s) (Ref 4) [''a''])
         \<and> Ref c2 \<in> set (resolve (heap ?s) (Ref 4) [''b'', ''0''])
         \<and> c1 \<noteq> c2 \<and> length ?h \<le> c1 \<and> c1 < length (heap ?s) \<and> length ?h \<le> c2 \<and> c2 < length (heap ?s)
         \<and> same_kind ?h 1 (heap ?s) c1 \<and> same_kind ?h 1 (heap ?s) c2"
    by blast
  then have first: "\<exists>c1 c2. Ref c1 \<in> set [Ref 5] \<and> Ref c2 \<in> set [Ref 7] \<and> c1 \<noteq> c2 \<and> 4 \<le> c1 \<and> 4 \<le> c2"
    unfolding sel res by auto
  from container_aliasing_is_not_preserved
         [THEN conjunct1,
          of ?h "Ref 0" defaultIsExtractableFile 4 "[]" "Ref 4" ?s "[''b'', ''0'']" 1 "[''b'', ''1'']"]
       wf dk st at(2,3) segs(2,4,5) run
  have "\<exists>c1 c2. Ref c1 \<in> set (resolve (heap ?s) (Ref 4) [''b'', ''0''])
         \<and> Ref c2 \<in> set (resolve (heap ?s) (Ref 4) [''b'', ''1''])
         \<and> c1 \<noteq> c2 \<and> length ?h \<le> c1 \<and> c1 < length (heap ?s) \<and> length ?h \<le> c2 \<and> c2 < length (heap ?s)
         \<and> same_kind ?h 1 (heap ?s) c1 \<and> same_kind ?h 1 (heap ?s) c2"
    by blast
  then have second: "\<exists>c1 c2. Ref c1 \<in> set [Ref 7] \<and> Ref c2 \<in> set [Ref 8] \<and> c1 \<noteq> c2 \<and> 4 \<le> c1 \<and> 4 \<le> c2"
    unfolding sel res by auto
  have l1: "lookup ?g 0 = Some (Plain [(''a'', Ref 1), (''b'', Ref 1)])"
    and l2: "lookup ?g 1 = Some (Arr [Ref 2])"
    by (simp_all add: lookup_def)
  from container_aliasing_is_not_preserved
         [THEN conjunct2, of ?g 0 1 "Ref 2" defaultIsExtractableFile 0]
       l1 l2 default_example_matcher
  have example: "\<exists>clone s' ca cb.
         extractFiles 3 ?g (Ref 0) [] defaultIsExtractableFile = Inr (clone, s')
       \<and> property (heap s') clone ''a'' = Ref ca
       \<and> property (heap s') clone ''b'' = Ref cb
       \<and> ca \<noteq> cb \<and> 3 \<le> ca \<and> 3 \<le> cb \<and> ca \<noteq> 1 \<and> cb \<noteq> 1
       \<and> lookup (heap s') ca = Some (Arr [Prim Null])
       \<and> lookup (heap s') cb = lookup (heap s') ca"
    by (simp add: numeral_3_eq_3 del: recurse.simps)
  from wf dk st at run res first second example show ?thesis
    by blast
qed

end
